theory Spec2Isabelle
  imports Main "HOL-Library.Word"
begin

section \<open>Strings\<close>

text \<open>
  A JavaScript string is a sequence of UTF-16 code units, and \<open>length\<close>, \<open>index\<close> and
  the regular expressions of the program (none has the \<open>u\<close> flag) count code units.
  \<open>js\<close> embeds an ASCII literal.
\<close>

type_synonym code_unit = "16 word"
type_synonym jsstring = "code_unit list"

definition js :: "string \<Rightarrow> jsstring" where
  "js s = map (\<lambda>c. of_nat (of_char c)) s"

section \<open>The catalog records\<close>

text \<open>\<^verbatim>\<open>interface DeprecatedAPI { apiName: string; changeType: string; description: string; }\<close>\<close>

record DeprecatedAPI =
  apiName :: jsstring
  changeType :: jsstring
  description :: jsstring

section \<open>The regular expression built for one record\<close>

text \<open>
  \<^verbatim>\<open>const escaped = dep.apiName.replace(/[.*+?^${}()|[\]\\]/g, '\\$&');\<close>
  \<^verbatim>\<open>const regex = new RegExp(`\\b${escaped}\\b`, 'g');\<close>

  The character class of the first line lists the fourteen syntax characters of the
  pattern grammar: \<open>. * + ? ^ $ { } ( ) | [ ]\<close> and the backslash (code unit 0x5C).
  The replacement \<open>\$&\<close> is a backslash followed by the matched character.
\<close>

definition syntax_character :: "code_unit \<Rightarrow> bool" where
  "syntax_character c = (c \<in> set (js ''.*+?^${}()|[]'') \<or> c = 0x5C)"

definition escape_replace :: "jsstring \<Rightarrow> jsstring" where
  "escape_replace s = concat (map (\<lambda>c. if syntax_character c then [0x5C, c] else [c]) s)"

definition pattern_source :: "jsstring \<Rightarrow> jsstring" where
  "pattern_source name = [0x5C, 0x62] @ escape_replace name @ [0x5C, 0x62]"

text \<open>
  The fragment of the pattern grammar the constructor is modelled on: a sequence of
  word-boundary assertions \<open>\b\<close>, identity escapes of syntax characters, and pattern
  characters (every code unit that is not a syntax character stands for itself).
  \<open>None\<close> is every other source text: a \<open>SyntaxError\<close> or a pattern outside the
  fragment (classes, groups, quantifiers, alternatives, other escapes).
\<close>

datatype rx_atom = WordBoundary | PatternCharacter code_unit

fun parse_pattern :: "jsstring \<Rightarrow> rx_atom list option" where
  "parse_pattern [] = Some []"
| "parse_pattern [c] =
     (if c = 0x5C \<or> syntax_character c then None else Some [PatternCharacter c])"
| "parse_pattern (c # d # ds) =
     (if c = 0x5C then
        (if d = 0x62 then map_option (Cons WordBoundary) (parse_pattern ds)
         else if syntax_character d then map_option (Cons (PatternCharacter d)) (parse_pattern ds)
         else None)
      else if syntax_character c then None
      else map_option (Cons (PatternCharacter c)) (parse_pattern (d # ds)))"

text \<open>A regular expression object with the \<open>g\<close> flag: the compiled body and \<open>lastIndex\<close>.\<close>

record RegExp =
  body :: "rx_atom list"
  lastIndex :: nat

definition new_RegExp :: "jsstring \<Rightarrow> RegExp option" where
  "new_RegExp src = map_option (\<lambda>b. \<lparr>body = b, lastIndex = 0\<rparr>) (parse_pattern src)"

section \<open>Matching\<close>

text \<open>
  Word characters are \<open>A-Z a-z 0-9 _\<close> (no \<open>i\<close> and no \<open>u\<close> flag). \<open>is_word_char s e\<close>
  is the test of the language definition at index \<open>e\<close>, false at \<open>-1\<close> and at the
  length of the input; \<open>\b\<close> holds at \<open>i\<close> when exactly one of the positions \<open>i - 1\<close>
  and \<open>i\<close> holds a word character.
\<close>

definition word_character :: "code_unit \<Rightarrow> bool" where
  "word_character c =
     ((0x41 \<le> c \<and> c \<le> 0x5A) \<or> (0x61 \<le> c \<and> c \<le> 0x7A) \<or> (0x30 \<le> c \<and> c \<le> 0x39) \<or> c = 0x5F)"

definition is_word_char :: "jsstring \<Rightarrow> int \<Rightarrow> bool" where
  "is_word_char s e = (0 \<le> e \<and> e < int (length s) \<and> word_character (s ! nat e))"

definition at_word_boundary :: "jsstring \<Rightarrow> nat \<Rightarrow> bool" where
  "at_word_boundary s i = (is_word_char s (int i - 1) \<noteq> is_word_char s (int i))"

text \<open>The matcher of a body at index \<open>i\<close>: the end index of the match, or failure.\<close>

fun matcher :: "rx_atom list \<Rightarrow> jsstring \<Rightarrow> nat \<Rightarrow> nat option" where
  "matcher [] s i = Some i"
| "matcher (WordBoundary # ts) s i = (if at_word_boundary s i then matcher ts s i else None)"
| "matcher (PatternCharacter c # ts) s i =
     (if i < length s \<and> s ! i = c then matcher ts s (Suc i) else None)"

text \<open>
  The search of \<open>exec\<close>: try the matcher at \<open>lastIndex\<close>, then one code unit further,
  until a match or until the index passes the length of the input.
\<close>

function regexp_search :: "rx_atom list \<Rightarrow> jsstring \<Rightarrow> nat \<Rightarrow> (nat \<times> nat) option" where
  "regexp_search b s i =
     (if length s < i then None
      else case matcher b s i of
             Some e \<Rightarrow> Some (i, e)
           | None \<Rightarrow> regexp_search b s (Suc i))"
  by pat_completeness auto
termination
  by (relation "measure (\<lambda>(b, s, i). Suc (length s) - i)") auto

declare regexp_search.simps [simp del]

text \<open>
  \<^verbatim>\<open>regex.exec(text)\<close> on a global expression: the index of the match (\<^verbatim>\<open>match.index\<close>) or
  \<^verbatim>\<open>null\<close>, and the expression with \<open>lastIndex\<close> set to the end of the match, or reset
  to 0 on failure. A match of length zero leaves \<open>lastIndex\<close> at the index of the match.
\<close>

definition exec :: "RegExp \<Rightarrow> jsstring \<Rightarrow> nat option \<times> RegExp" where
  "exec r s =
     (case regexp_search (body r) s (lastIndex r) of
        None \<Rightarrow> (None, r\<lparr>lastIndex := 0\<rparr>)
      | Some (i, e) \<Rightarrow> (Some i, r\<lparr>lastIndex := e\<rparr>))"

section \<open>checkForDeprecations\<close>

datatype DiagnosticSeverity = Error | Warning | Information | Hint

text \<open>
  A range is kept as the two offsets the program hands to \<^verbatim>\<open>doc.positionAt\<close>
  (the editor's conversion of an offset into a line and a column).
\<close>

record Diagnostic =
  severity :: DiagnosticSeverity
  diag_range :: "nat \<times> nat"
  message :: jsstring
  source :: jsstring

record DecorationOptions =
  deco_range :: "nat \<times> nat"
  contentText :: jsstring

record scan_state =
  diagnostics :: "Diagnostic list"
  decorationOptions :: "DecorationOptions list"

definition diagMessage :: "DeprecatedAPI \<Rightarrow> jsstring" where
  "diagMessage dep =
     js ''The API \"'' @ apiName dep @ js ''\" is marked as '' @ changeType dep @ js ''. ''
       @ description dep"

definition make_diagnostic :: "DeprecatedAPI \<Rightarrow> nat \<Rightarrow> Diagnostic" where
  "make_diagnostic dep startIndex =
     \<lparr>severity = Warning,
      diag_range = (startIndex, startIndex + length (apiName dep)),
      message = diagMessage dep,
      source = js ''Chrome Deprecation Watcher''\<rparr>"

definition make_decoration :: "DeprecatedAPI \<Rightarrow> nat \<Rightarrow> DecorationOptions" where
  "make_decoration dep startIndex =
     \<lparr>deco_range = (startIndex, startIndex + length (apiName dep)),
      contentText = js ''['' @ changeType dep @ js ''] '' @ apiName dep\<rparr>"

text \<open>The body of the \<^verbatim>\<open>while\<close> loop: one diagnostic and one decoration are pushed.\<close>

definition push_match :: "DeprecatedAPI \<Rightarrow> nat \<Rightarrow> scan_state \<Rightarrow> scan_state" where
  "push_match dep startIndex st =
     \<lparr>diagnostics = diagnostics st @ [make_diagnostic dep startIndex],
      decorationOptions = decorationOptions st @ [make_decoration dep startIndex]\<rparr>"

text \<open>
  \<^verbatim>\<open>while ((match = regex.exec(text)) !== null) { ... }\<close>
  The loop need not end, so it is a partial function: \<open>None\<close> is a loop that runs forever.
\<close>

partial_function (option) while_exec ::
  "RegExp \<Rightarrow> jsstring \<Rightarrow> DeprecatedAPI \<Rightarrow> scan_state \<Rightarrow> scan_state option" where
  "while_exec regex text dep st =
     (case exec regex text of
        (None, regex') \<Rightarrow> Some st
      | (Some startIndex, regex') \<Rightarrow> while_exec regex' text dep (push_match dep startIndex st))"

datatype exn = SyntaxError | TypeError | AxiosError | LanguageModelError

text \<open>One iteration of \<^verbatim>\<open>for (const dep of deprecations)\<close>.\<close>

definition scan_dep :: "jsstring \<Rightarrow> DeprecatedAPI \<Rightarrow> scan_state \<Rightarrow> (exn + scan_state) option" where
  "scan_dep text dep st =
     (case new_RegExp (pattern_source (apiName dep)) of
        None \<Rightarrow> Some (Inl SyntaxError)
      | Some regex \<Rightarrow> map_option Inr (while_exec regex text dep st))"

fun for_deprecations ::
  "jsstring \<Rightarrow> DeprecatedAPI list \<Rightarrow> scan_state \<Rightarrow> (exn + scan_state) option" where
  "for_deprecations text [] st = Some (Inr st)"
| "for_deprecations text (dep # deps) st =
     (case scan_dep text dep st of
        None \<Rightarrow> None
      | Some (Inl e) \<Rightarrow> Some (Inl e)
      | Some (Inr st') \<Rightarrow> for_deprecations text deps st')"

text \<open>
  The document and the two sinks of the editor: the diagnostic collection and the
  decorations of the visible editors, both replaced per document.
\<close>

record TextDocument =
  uri :: jsstring
  getText :: jsstring
  visible :: bool

record editor_state =
  collection :: "jsstring \<rightharpoonup> Diagnostic list"
  decorations :: "jsstring \<rightharpoonup> DecorationOptions list"

text \<open>
  \<^verbatim>\<open>collection.set(doc.uri, diagnostics)\<close>, and \<^verbatim>\<open>editor.setDecorations(...)\<close> when an
  editor showing the document is visible.
\<close>

definition publish :: "TextDocument \<Rightarrow> scan_state \<Rightarrow> editor_state \<Rightarrow> editor_state" where
  "publish doc st ed =
     \<lparr>collection = (collection ed)(uri doc \<mapsto> diagnostics st),
      decorations = (if visible doc
                     then (decorations ed)(uri doc \<mapsto> decorationOptions st)
                     else decorations ed)\<rparr>"

text \<open>
  The result is \<open>None\<close> when a scan never ends, \<open>Some (Inl e)\<close> when \<open>e\<close> is thrown,
  and \<open>Some (Inr ed)\<close> with the state of the editor after the call otherwise.
\<close>

definition checkForDeprecations ::
  "TextDocument \<Rightarrow> DeprecatedAPI list \<Rightarrow> editor_state \<Rightarrow> (exn + editor_state) option" where
  "checkForDeprecations doc deprecations ed =
     (case for_deprecations (getText doc) deprecations \<lparr>diagnostics = [], decorationOptions = []\<rparr> of
        None \<Rightarrow> None
      | Some (Inl e) \<Rightarrow> Some (Inl e)
      | Some (Inr st) \<Rightarrow> Some (Inr (publish doc st ed)))"

section \<open>JSON values\<close>

text \<open>
  What \<^verbatim>\<open>JSON.parse\<close> returns and \<^verbatim>\<open>JSON.stringify\<close> prints. An object keeps its
  properties in enumeration order. A number is kept as the literal it was read from: the
  double it denotes, and the digits \<^verbatim>\<open>JSON.stringify\<close> would print for it, are floating
  point and are not modelled; the program does no arithmetic on the values, and no
  statement below is about a value that holds a number.
\<close>

datatype json =
    JNull
  | JBool bool
  | JNumber jsstring
  | JString jsstring
  | JArray "json list"
  | JObject "(jsstring \<times> json) list"

text \<open>
  An object whose properties are all strings, and the three properties of a
  \<^verbatim>\<open>DeprecatedAPI\<close>. \<open>valid_record\<close> holds of the three fields in any order.
\<close>

definition string_object :: "(jsstring \<times> jsstring) list \<Rightarrow> json" where
  "string_object ms = JObject (map (\<lambda>(k, s). (k, JString s)) ms)"

definition record_json :: "DeprecatedAPI \<Rightarrow> json" where
  "record_json d =
     string_object [(js ''apiName'', apiName d), (js ''changeType'', changeType d),
                    (js ''description'', description d)]"

definition catalog_json :: "DeprecatedAPI list \<Rightarrow> json" where
  "catalog_json C = JArray (map record_json C)"

definition valid_record :: "(jsstring \<times> jsstring) list \<Rightarrow> bool" where
  "valid_record ms =
     (distinct (map fst ms) \<and>
      set (map fst ms) = {js ''apiName'', js ''changeType'', js ''description''})"

section \<open>JSON.parse\<close>

text \<open>
  The text is cut into tokens and the tokens drive a stack machine; \<open>None\<close> is the
  \<open>SyntaxError\<close> that \<^verbatim>\<open>JSON.parse\<close> throws.
\<close>

datatype token =
    TLBracket | TRBracket | TLBrace | TRBrace | TColon | TComma
  | TString jsstring | TNumber jsstring | TTrue | TFalse | TNull

text \<open>
  White space is tab, line feed, carriage return and space. \<open>hex4\<close> reads the four
  digits of \<open>\uXXXX\<close>, \<open>simple_escape\<close> the character after a backslash.
\<close>

definition json_whitespace :: "code_unit \<Rightarrow> bool" where
  "json_whitespace c = (c = 0x09 \<or> c = 0x0A \<or> c = 0x0D \<or> c = 0x20)"

definition is_digit :: "code_unit \<Rightarrow> bool" where
  "is_digit c = (0x30 \<le> c \<and> c \<le> 0x39)"

definition hex_value :: "code_unit \<Rightarrow> nat option" where
  "hex_value c =
     (if 0x30 \<le> c \<and> c \<le> 0x39 then Some (unat c - 0x30)
      else if 0x41 \<le> c \<and> c \<le> 0x46 then Some (unat c - 0x41 + 10)
      else if 0x61 \<le> c \<and> c \<le> 0x66 then Some (unat c - 0x61 + 10)
      else None)"

definition hex4 :: "code_unit \<Rightarrow> code_unit \<Rightarrow> code_unit \<Rightarrow> code_unit \<Rightarrow> code_unit option" where
  "hex4 a b c d =
     (case (hex_value a, hex_value b, hex_value c, hex_value d) of
        (Some x, Some y, Some z, Some w) \<Rightarrow> Some (of_nat (((x * 16 + y) * 16 + z) * 16 + w))
      | _ \<Rightarrow> None)"

definition simple_escape :: "code_unit \<Rightarrow> code_unit option" where
  "simple_escape e =
     (if e = 0x22 then Some 0x22
      else if e = 0x5C then Some 0x5C
      else if e = 0x2F then Some 0x2F
      else if e = 0x62 then Some 0x08
      else if e = 0x66 then Some 0x0C
      else if e = 0x6E then Some 0x0A
      else if e = 0x72 then Some 0x0D
      else if e = 0x74 then Some 0x09
      else None)"

text \<open>
  The characters of a string after its opening quote, up to the closing quote: the string
  and the rest of the text. A control character below 0x20 is an error.
\<close>

fun lex_string :: "jsstring \<Rightarrow> (jsstring \<times> jsstring) option" where
  "lex_string [] = None"
| "lex_string (c # cs) =
     (if c = 0x22 then Some ([], cs)
      else if c = 0x5C then
        (case cs of
           [] \<Rightarrow> None
         | e # es \<Rightarrow>
             if e = 0x75 then
               (case es of
                  h1 # h2 # h3 # h4 # rest \<Rightarrow>
                    (case hex4 h1 h2 h3 h4 of
                       None \<Rightarrow> None
                     | Some u \<Rightarrow> map_option (\<lambda>(s, r). (u # s, r)) (lex_string rest))
                | _ \<Rightarrow> None)
             else
               (case simple_escape e of
                  None \<Rightarrow> None
                | Some u \<Rightarrow> map_option (\<lambda>(s, r). (u # s, r)) (lex_string es)))
      else if c < 0x20 then None
      else map_option (\<lambda>(s, r). (c # s, r)) (lex_string cs))"

text \<open>
  A number: \<open>-\<close>\<open>?\<close> then \<open>0\<close> or a non-zero digit and digits, an optional fraction and
  an optional exponent, each with at least one digit.
\<close>

definition lex_int :: "jsstring \<Rightarrow> (jsstring \<times> jsstring) option" where
  "lex_int cs =
     (case cs of
        [] \<Rightarrow> None
      | d # ds \<Rightarrow>
          if d = 0x30 then Some ([d], ds)
          else if is_digit d then Some (d # takeWhile is_digit ds, dropWhile is_digit ds)
          else None)"

definition lex_digits1 :: "jsstring \<Rightarrow> (jsstring \<times> jsstring) option" where
  "lex_digits1 cs =
     (if takeWhile is_digit cs = [] then None
      else Some (takeWhile is_digit cs, dropWhile is_digit cs))"

definition lex_frac :: "jsstring \<Rightarrow> (jsstring \<times> jsstring) option" where
  "lex_frac cs =
     (case cs of
        [] \<Rightarrow> Some ([], [])
      | d # ds \<Rightarrow>
          if d = 0x2E then map_option (\<lambda>(n, r). (d # n, r)) (lex_digits1 ds)
          else Some ([], cs))"

definition lex_exp :: "jsstring \<Rightarrow> (jsstring \<times> jsstring) option" where
  "lex_exp cs =
     (case cs of
        [] \<Rightarrow> Some ([], [])
      | e # es \<Rightarrow>
          if e = 0x65 \<or> e = 0x45 then
            (case es of
               [] \<Rightarrow> None
             | g # gs \<Rightarrow>
                 if g = 0x2B \<or> g = 0x2D
                 then map_option (\<lambda>(n, r). (e # g # n, r)) (lex_digits1 gs)
                 else map_option (\<lambda>(n, r). (e # n, r)) (lex_digits1 es))
          else Some ([], cs))"

definition lex_unsigned :: "jsstring \<Rightarrow> (jsstring \<times> jsstring) option" where
  "lex_unsigned cs =
     (case lex_int cs of
        None \<Rightarrow> None
      | Some (i, r1) \<Rightarrow>
          (case lex_frac r1 of
             None \<Rightarrow> None
           | Some (f, r2) \<Rightarrow>
               (case lex_exp r2 of
                  None \<Rightarrow> None
                | Some (e, r3) \<Rightarrow> Some (i @ f @ e, r3))))"

definition lex_number :: "jsstring \<Rightarrow> (jsstring \<times> jsstring) option" where
  "lex_number cs =
     (case cs of
        [] \<Rightarrow> None
      | c # cs' \<Rightarrow>
          if c = 0x2D then map_option (\<lambda>(n, r). (c # n, r)) (lex_unsigned cs')
          else lex_unsigned cs)"

text \<open>A string or a number that is read leaves a shorter text: the tokenizer terminates.\<close>

lemma lex_string_length: "lex_string cs = Some (s, rest) \<Longrightarrow> length rest < length cs"
proof (induction cs arbitrary: s rest rule: lex_string.induct)
  case 1
  then show ?case by simp
next
  case (2 c cs)
  show ?case
  proof (cases "c = 0x22")
    case True
    with "2.prems" show ?thesis by simp
  next
    case q: False
    show ?thesis
    proof (cases "c = 0x5C")
      case True
      with q "2.prems" obtain e es where cs: "cs = e # es" by (cases cs) auto
      show ?thesis
      proof (cases "e = 0x75")
        case u: True
        with q True cs "2.prems" obtain h1 h2 h3 h4 rest' v s' where
          es: "es = h1 # h2 # h3 # h4 # rest'" and h: "hex4 h1 h2 h3 h4 = Some v"
          and r: "lex_string rest' = Some (s', rest)"
          by (auto split: list.splits option.splits)
        from "2.IH"(1) [OF q True cs u es refl refl refl h r] cs es show ?thesis by simp
      next
        case nu: False
        with q True cs "2.prems" obtain v s' where
          h: "simple_escape e = Some v" and r: "lex_string es = Some (s', rest)"
          by (auto split: option.splits)
        from "2.IH"(2) [OF q True cs nu h r] cs show ?thesis by simp
      qed
    next
      case b: False
      with q "2.prems" obtain s' where ctl: "\<not> c < 0x20" and r: "lex_string cs = Some (s', rest)"
        by (auto split: if_splits)
      from "2.IH"(3) [OF q b ctl r] show ?thesis by simp
    qed
  qed
qed

lemma lex_digits1_length: "lex_digits1 cs = Some (n, r) \<Longrightarrow> length r \<le> length cs"
  by (auto simp: lex_digits1_def split: if_splits intro: length_dropWhile_le)

lemma lex_int_length: "lex_int cs = Some (n, r) \<Longrightarrow> length r < length cs"
  by (auto simp: lex_int_def less_Suc_eq_le split: list.splits if_splits intro: length_dropWhile_le)

lemma lex_frac_length: "lex_frac cs = Some (n, r) \<Longrightarrow> length r \<le> length cs"
  by (auto simp: lex_frac_def split: list.splits if_splits dest!: lex_digits1_length)

lemma lex_exp_length: "lex_exp cs = Some (n, r) \<Longrightarrow> length r \<le> length cs"
  by (auto simp: lex_exp_def split: list.splits if_splits dest!: lex_digits1_length)

lemma lex_unsigned_length: "lex_unsigned cs = Some (n, r) \<Longrightarrow> length r < length cs"
  by (auto simp: lex_unsigned_def split: option.splits
      dest!: lex_int_length lex_frac_length lex_exp_length)

lemma lex_number_length: "lex_number cs = Some (n, r) \<Longrightarrow> length r < length cs"
  by (auto simp: lex_number_def split: list.splits if_splits dest!: lex_unsigned_length)

text \<open>The tokens of a text.\<close>

function tokenize :: "jsstring \<Rightarrow> token list option" where
  "tokenize [] = Some []"
| "tokenize (c # cs) =
     (if json_whitespace c then tokenize cs
      else if c = 0x5B then map_option (Cons TLBracket) (tokenize cs)
      else if c = 0x5D then map_option (Cons TRBracket) (tokenize cs)
      else if c = 0x7B then map_option (Cons TLBrace) (tokenize cs)
      else if c = 0x7D then map_option (Cons TRBrace) (tokenize cs)
      else if c = 0x3A then map_option (Cons TColon) (tokenize cs)
      else if c = 0x2C then map_option (Cons TComma) (tokenize cs)
      else if c = 0x22 then
        (case lex_string cs of
           None \<Rightarrow> None
         | Some (s, rest) \<Rightarrow> map_option (Cons (TString s)) (tokenize rest))
      else if c = 0x2D \<or> is_digit c then
        (case lex_number (c # cs) of
           None \<Rightarrow> None
         | Some (n, rest) \<Rightarrow> map_option (Cons (TNumber n)) (tokenize rest))
      else if take 4 (c # cs) = js ''true'' then map_option (Cons TTrue) (tokenize (drop 3 cs))
      else if take 5 (c # cs) = js ''false'' then map_option (Cons TFalse) (tokenize (drop 4 cs))
      else if take 4 (c # cs) = js ''null'' then map_option (Cons TNull) (tokenize (drop 3 cs))
      else None)"
  by pat_completeness auto
termination
proof (relation "measure length")
  fix c cs x2 s rest
  assume "lex_string cs = Some x2" "(s, rest) = x2"
  then show "(rest, c # cs) \<in> measure length"
    using lex_string_length [of cs s rest] by simp
next
  fix c cs x2 n rest
  assume "lex_number (c # cs) = Some x2" "(n, rest) = x2"
  then show "(rest, c # cs) \<in> measure length"
    using lex_number_length [of "c # cs" n rest] by simp
qed auto

declare tokenize.simps [simp del]

text \<open>
  The properties of an object as \<^verbatim>\<open>JSON.parse\<close> defines them: a key that is present
  keeps its place and takes the new value; a new key that is an array index (the
  canonical decimal of an integer below \<open>2^32 - 1\<close>) goes among the indices, in ascending
  order, which come first; any other new key goes last.
\<close>

definition array_index :: "jsstring \<Rightarrow> int option" where
  "array_index k =
     (if k = [] \<or> \<not> list_all is_digit k \<or> (hd k = 0x30 \<and> length k \<noteq> 1) then None
      else let n = foldl (\<lambda>a d. a * 10 + (uint d - 0x30)) 0 k
           in if n < 4294967295 then Some n else None)"

fun update_property :: "(jsstring \<times> json) list \<Rightarrow> jsstring \<Rightarrow> json \<Rightarrow> (jsstring \<times> json) list" where
  "update_property [] k v = []"
| "update_property ((k', v') # ms) k v =
     (if k' = k then (k, v) # ms else (k', v') # update_property ms k v)"

fun insert_index :: "(jsstring \<times> json) list \<Rightarrow> int \<Rightarrow> jsstring \<Rightarrow> json \<Rightarrow> (jsstring \<times> json) list" where
  "insert_index [] n k v = [(k, v)]"
| "insert_index ((k', v') # ms) n k v =
     (case array_index k' of
        None \<Rightarrow> (k, v) # (k', v') # ms
      | Some n' \<Rightarrow> if n < n' then (k, v) # (k', v') # ms else (k', v') # insert_index ms n k v)"

definition define_property :: "(jsstring \<times> json) list \<Rightarrow> jsstring \<Rightarrow> json \<Rightarrow> (jsstring \<times> json) list" where
  "define_property ms k v =
     (if k \<in> fst ` set ms then update_property ms k v
      else case array_index k of
             None \<Rightarrow> ms @ [(k, v)]
           | Some n \<Rightarrow> insert_index ms n k v)"

text \<open>
  The machine: a stack of open arrays and objects (\<open>MemberFrame\<close> is an object whose
  next value belongs to the key it holds), and what may come next. A finished value is
  delivered to the frame on top of the stack, or is the result when the stack is empty.
\<close>

datatype frame =
    ArrayFrame "json list"
  | ObjectFrame "(jsstring \<times> json) list"
  | MemberFrame "(jsstring \<times> json) list" jsstring

datatype expect = Value | ValueOrClose | KeyOrClose | Key | Colon | CommaOrClose | Finished json

fun scalar :: "token \<Rightarrow> json option" where
  "scalar (TString s) = Some (JString s)"
| "scalar (TNumber n) = Some (JNumber n)"
| "scalar TTrue = Some (JBool True)"
| "scalar TFalse = Some (JBool False)"
| "scalar TNull = Some JNull"
| "scalar _ = None"

fun deliver :: "json \<Rightarrow> frame list \<Rightarrow> (frame list \<times> expect) option" where
  "deliver v [] = Some ([], Finished v)"
| "deliver v (ArrayFrame xs # st) = Some (ArrayFrame (xs @ [v]) # st, CommaOrClose)"
| "deliver v (MemberFrame ms k # st) = Some (ObjectFrame (define_property ms k v) # st, CommaOrClose)"
| "deliver v (ObjectFrame ms # st) = None"

definition begin_value :: "frame list \<Rightarrow> token \<Rightarrow> (frame list \<times> expect) option" where
  "begin_value st tok =
     (if tok = TLBracket then Some (ArrayFrame [] # st, ValueOrClose)
      else if tok = TLBrace then Some (ObjectFrame [] # st, KeyOrClose)
      else case scalar tok of None \<Rightarrow> None | Some v \<Rightarrow> deliver v st)"

definition begin_member :: "frame list \<Rightarrow> token \<Rightarrow> (frame list \<times> expect) option" where
  "begin_member st tok =
     (case (st, tok) of
        (ObjectFrame ms # st', TString k) \<Rightarrow> Some (MemberFrame ms k # st', Colon)
      | _ \<Rightarrow> None)"

definition close_frame :: "frame list \<Rightarrow> token \<Rightarrow> (frame list \<times> expect) option" where
  "close_frame st tok =
     (case (st, tok) of
        (ArrayFrame xs # st', TRBracket) \<Rightarrow> deliver (JArray xs) st'
      | (ObjectFrame ms # st', TRBrace) \<Rightarrow> deliver (JObject ms) st'
      | _ \<Rightarrow> None)"

fun step :: "frame list \<times> expect \<Rightarrow> token \<Rightarrow> (frame list \<times> expect) option" where
  "step (st, Value) tok = begin_value st tok"
| "step (st, ValueOrClose) tok = (if tok = TRBracket then close_frame st tok else begin_value st tok)"
| "step (st, KeyOrClose) tok = (if tok = TRBrace then close_frame st tok else begin_member st tok)"
| "step (st, Key) tok = begin_member st tok"
| "step (st, Colon) tok = (if tok = TColon then Some (st, Value) else None)"
| "step (st, CommaOrClose) tok =
     (if tok = TComma then
        (case st of
           ArrayFrame xs # st' \<Rightarrow> Some (st, Value)
         | ObjectFrame ms # st' \<Rightarrow> Some (st, Key)
         | _ \<Rightarrow> None)
      else close_frame st tok)"
| "step (st, Finished v) tok = None"

fun run :: "frame list \<times> expect \<Rightarrow> token list \<Rightarrow> (frame list \<times> expect) option" where
  "run c [] = Some c"
| "run c (t # ts) = (case step c t of None \<Rightarrow> None | Some c' \<Rightarrow> run c' ts)"

definition JSON_parse :: "jsstring \<Rightarrow> json option" where
  "JSON_parse text =
     (case tokenize text of
        None \<Rightarrow> None
      | Some toks \<Rightarrow>
          (case run ([], Value) toks of
             Some ([], Finished v) \<Rightarrow> Some v
           | _ \<Rightarrow> None))"

section \<open>JSON.stringify\<close>

text \<open>
  \<^verbatim>\<open>JSON.stringify(newData, null, 2)\<close>. A string is quoted code point by code point: the
  seven characters with a short escape, the other control characters and the unpaired
  surrogates as \<open>\uxxxx\<close> with lower-case digits, everything else as it is.
\<close>

definition hex_digit :: "nat \<Rightarrow> code_unit" where
  "hex_digit n = (if n < 10 then of_nat (0x30 + n) else of_nat (0x61 + (n - 10)))"

definition unicode_escape :: "code_unit \<Rightarrow> jsstring" where
  "unicode_escape c =
     [0x5C, 0x75, hex_digit (unat c div 4096), hex_digit (unat c div 256 mod 16),
      hex_digit (unat c div 16 mod 16), hex_digit (unat c mod 16)]"

definition leading_surrogate :: "code_unit \<Rightarrow> bool" where
  "leading_surrogate c = (0xD800 \<le> c \<and> c \<le> 0xDBFF)"

definition trailing_surrogate :: "code_unit \<Rightarrow> bool" where
  "trailing_surrogate c = (0xDC00 \<le> c \<and> c \<le> 0xDFFF)"

fun quote_units :: "jsstring \<Rightarrow> jsstring" where
  "quote_units [] = []"
| "quote_units (c # cs) =
     (if c = 0x08 then [0x5C, 0x62] @ quote_units cs
      else if c = 0x09 then [0x5C, 0x74] @ quote_units cs
      else if c = 0x0A then [0x5C, 0x6E] @ quote_units cs
      else if c = 0x0C then [0x5C, 0x66] @ quote_units cs
      else if c = 0x0D then [0x5C, 0x72] @ quote_units cs
      else if c = 0x22 then [0x5C, 0x22] @ quote_units cs
      else if c = 0x5C then [0x5C, 0x5C] @ quote_units cs
      else if c < 0x20 then unicode_escape c @ quote_units cs
      else if leading_surrogate c then
        (case cs of
           [] \<Rightarrow> unicode_escape c
         | d # ds \<Rightarrow>
             if trailing_surrogate d then c # d # quote_units ds
             else unicode_escape c @ quote_units cs)
      else if trailing_surrogate c then unicode_escape c @ quote_units cs
      else c # quote_units cs)"

definition QuoteJSONString :: "jsstring \<Rightarrow> jsstring" where
  "QuoteJSONString s = [0x22] @ quote_units s @ [0x22]"

text \<open>\<^verbatim>\<open>Array.prototype.join\<close> on strings; the indentation unit of two spaces.\<close>

fun join :: "jsstring \<Rightarrow> jsstring list \<Rightarrow> jsstring" where
  "join sep [] = []"
| "join sep [x] = x"
| "join sep (x # y # ys) = x @ sep @ join sep (y # ys)"

definition gap :: jsstring where
  "gap = js ''  ''"

text \<open>
  A value printed at an indentation: an empty array is \<open>[]\<close>, an empty object \<open>{}\<close>;
  otherwise one element or one \<open>"key": value\<close> per line, one unit deeper, separated by
  a comma and a line feed.
\<close>

fun serialize :: "jsstring \<Rightarrow> json \<Rightarrow> jsstring" where
  "serialize indent JNull = js ''null''"
| "serialize indent (JBool b) = (if b then js ''true'' else js ''false'')"
| "serialize indent (JNumber n) = n"
| "serialize indent (JString s) = QuoteJSONString s"
| "serialize indent (JArray xs) =
     (if xs = [] then js ''[]''
      else js ''['' @ [0x0A] @ (indent @ gap)
           @ join ([0x2C, 0x0A] @ (indent @ gap)) (map (serialize (indent @ gap)) xs)
           @ [0x0A] @ indent @ js '']'')"
| "serialize indent (JObject ms) =
     (if ms = [] then js ''{}''
      else js ''{'' @ [0x0A] @ (indent @ gap)
           @ join ([0x2C, 0x0A] @ (indent @ gap))
               (map (\<lambda>(k, v). QuoteJSONString k @ js '': '' @ serialize (indent @ gap) v) ms)
           @ [0x0A] @ indent @ js ''}'')"

definition JSON_stringify :: "json \<Rightarrow> jsstring" where
  "JSON_stringify v = serialize [] v"

section \<open>The acquisition of the catalog\<close>

text \<open>
  The state the acquisition changes is the file system (the files with their text, the
  directories) and the trace of the calls made to the network and to the language model.
  What the outside answers is an input, \<open>env\<close>: the outcome of \<^verbatim>\<open>axios.get\<close> for a URL
  (the body, or the error the promise rejects with); for an HTML text the \<^verbatim>\<open>h3\<close> elements
  cheerio finds in it, in document order, each with the text of the element and the text
  of the siblings up to the next \<^verbatim>\<open>h3\<close>; the number of chat models of the family
  \<^verbatim>\<open>gpt-4\<close>; and for a prompt the whole streamed response of the first model, or the error
  thrown. Logging and notifications are left out, and reads and writes of the file
  system succeed.
\<close>

datatype call = HttpGet jsstring | SelectChatModels | SendRequest jsstring

record world =
  files :: "jsstring \<rightharpoonup> jsstring"
  directories :: "jsstring set"
  calls :: "call list"

record env =
  axios_get :: "jsstring \<Rightarrow> exn + jsstring"
  h3_sections :: "jsstring \<Rightarrow> (jsstring \<times> jsstring) list"
  chat_models :: nat
  chat_response :: "jsstring \<Rightarrow> exn + jsstring"

text \<open>\<^verbatim>\<open>const response = await axios.get(url); return response.data;\<close>\<close>

definition fetchReleaseNotesHTML :: "env \<Rightarrow> jsstring \<Rightarrow> world \<Rightarrow> (exn + jsstring) \<times> world" where
  "fetchReleaseNotesHTML env url w = (axios_get env url, w\<lparr>calls := calls w @ [HttpGet url]\<rparr>)"

text \<open>
  \<^verbatim>\<open>String.prototype.trim\<close> removes white space and line terminators at both ends.
  \<^verbatim>\<open>results.push(`HEADING: ${heading}\nCONTENT: ${content}`)\<close> for each \<^verbatim>\<open>h3\<close>.
\<close>

definition js_whitespace :: "code_unit \<Rightarrow> bool" where
  "js_whitespace c =
     (c = 0x09 \<or> c = 0x0A \<or> c = 0x0B \<or> c = 0x0C \<or> c = 0x0D \<or> c = 0x20 \<or> c = 0xA0
      \<or> c = 0x1680 \<or> (0x2000 \<le> c \<and> c \<le> 0x200A) \<or> c = 0x2028 \<or> c = 0x2029
      \<or> c = 0x202F \<or> c = 0x205F \<or> c = 0x3000 \<or> c = 0xFEFF)"

definition trim :: "jsstring \<Rightarrow> jsstring" where
  "trim s = rev (dropWhile js_whitespace (rev (dropWhile js_whitespace s)))"

definition parseHTMLwithCheerio :: "env \<Rightarrow> jsstring \<Rightarrow> jsstring list" where
  "parseHTMLwithCheerio env html =
     map (\<lambda>(heading, content).
            js ''HEADING: '' @ trim heading @ [0x0A] @ js ''CONTENT: '' @ trim content)
         (h3_sections env html)"

text \<open>The template literal \<^verbatim>\<open>userQuery\<close>, line by line.\<close>

definition userQuery :: "jsstring \<Rightarrow> jsstring" where
  "userQuery combinedText =
     [0x0A] @ js ''  You are given text extracted from Chrome release notes.''
     @ [0x0A] @ js ''  Identify any deprecated or changed APIs and return them in a JSON array of objects,''
     @ [0x0A] @ js ''  using the code block ```json ...``` format.''
     @ [0x0A] @ js ''  Example:''
     @ [0x0A] @ js ''  ```json''
     @ [0x0A] @ js ''  [''
     @ [0x0A] @ js ''    { \"apiName\": \"...\", \"changeType\": \"...\", \"description\": \"...\" },''
     @ [0x0A] @ js ''    ...''
     @ [0x0A] @ js ''  ]''
     @ [0x0A] @ js ''  ```''
     @ [0x0A] @ js ''  Here is the text:''
     @ [0x0A] @ js ''  '' @ combinedText
     @ [0x0A] @ js ''  ''"

text \<open>
  \<^verbatim>\<open>/```json([\s\S]*?)```/.exec(responseText)\<close>, reduced to its first capture group: the
  leftmost position where the opening fence stands and a closing fence follows, and the
  shortest text between them (\<open>lazy_until\<close> is the lazy quantifier followed by the
  closing fence).
\<close>

fun lazy_until :: "jsstring \<Rightarrow> jsstring \<Rightarrow> jsstring option" where
  "lazy_until close [] = (if close = [] then Some [] else None)"
| "lazy_until close (c # cs) =
     (if take (length close) (c # cs) = close then Some []
      else map_option (Cons c) (lazy_until close cs))"

fun jsonRegex_exec :: "jsstring \<Rightarrow> jsstring option" where
  "jsonRegex_exec [] = None"
| "jsonRegex_exec (c # cs) =
     (if take 7 (c # cs) = js ''```json'' then
        (case lazy_until (js ''```'') (drop 7 (c # cs)) of
           Some m \<Rightarrow> Some m
         | None \<Rightarrow> jsonRegex_exec cs)
      else jsonRegex_exec cs)"

text \<open>
  The log line inside each \<^verbatim>\<open>try\<close> of the acquisition holds \<^verbatim>\<open>${parsed.length}\<close>. Reading
  the property throws a \<^verbatim>\<open>TypeError\<close> when \<^verbatim>\<open>parsed\<close> is \<^verbatim>\<open>null\<close>. Of a string or an array
  the property is a number, of an object it is the property of that name the object has,
  and in every other case it is \<^verbatim>\<open>undefined\<close>. The template literal then converts it to a
  string (the operation \<open>ToString\<close> of the language definition). A primitive value is
  converted without error. An object is converted by its method \<^verbatim>\<open>toString\<close>: a parsed
  object that has a property \<^verbatim>\<open>toString\<close> holds a value there that is no function, the
  inherited \<^verbatim>\<open>valueOf\<close> returns the object, or the object has a property \<^verbatim>\<open>valueOf\<close> that
  is no function either, and a \<^verbatim>\<open>TypeError\<close> is thrown; any other parsed object is converted
  by \<^verbatim>\<open>Object.prototype.toString\<close> without error. An array is converted by
  \<^verbatim>\<open>Array.prototype.join\<close>, which converts each element other than \<^verbatim>\<open>null\<close> in turn.
  (\<^verbatim>\<open>JSON.parse\<close> defines \<^verbatim>\<open>__proto__\<close> as an ordinary property: the prototypes are the
  standard ones.) Exhaustion of the call stack by a deeply nested value is not modelled.
\<close>

fun ToString_throws :: "json \<Rightarrow> bool" where
  "ToString_throws JNull = False"
| "ToString_throws (JBool b) = False"
| "ToString_throws (JNumber n) = False"
| "ToString_throws (JString s) = False"
| "ToString_throws (JArray vs) = list_ex ToString_throws vs"
| "ToString_throws (JObject ms) = (js ''toString'' \<in> fst ` set ms)"

definition parsed_length_throws :: "json \<Rightarrow> bool" where
  "parsed_length_throws parsed =
     (case parsed of
        JNull \<Rightarrow> True
      | JObject ms \<Rightarrow>
          (case map_of ms (js ''length'') of
             None \<Rightarrow> False
           | Some len \<Rightarrow> ToString_throws len)
      | _ \<Rightarrow> False)"

text \<open>
  Step 6 of \<^verbatim>\<open>parseReleaseNotesWithCopilot\<close>. \<^verbatim>\<open>match && match[1]\<close> is false for no match
  and for an empty capture. Inside \<^verbatim>\<open>try\<close>, \<^verbatim>\<open>JSON.parse\<close> may throw, and so may the
  \<^verbatim>\<open>${parsed.length}\<close> of the log line; both are caught and fall through to \<^verbatim>\<open>return []\<close>.
  Otherwise \<^verbatim>\<open>return parsed\<close> returns the parsed value, whatever it is.
\<close>

definition records_of_response :: "jsstring \<Rightarrow> json" where
  "records_of_response responseText =
     (case jsonRegex_exec responseText of
        None \<Rightarrow> JArray []
      | Some m \<Rightarrow>
          if m = [] then JArray []
          else (case JSON_parse m of
                  None \<Rightarrow> JArray []
                | Some parsed \<Rightarrow> if parsed_length_throws parsed then JArray [] else parsed))"

text \<open>
  \<^verbatim>\<open>parseReleaseNotesWithCopilot\<close>: no model gives the empty array; an error of the
  request or of the stream is not caught.
\<close>

definition parseReleaseNotesWithCopilot ::
  "env \<Rightarrow> jsstring list \<Rightarrow> world \<Rightarrow> (exn + json) \<times> world" where
  "parseReleaseNotesWithCopilot env sections w =
     (let w1 = w\<lparr>calls := calls w @ [SelectChatModels]\<rparr> in
      if chat_models env = 0 then (Inr (JArray []), w1)
      else
        let combinedText = join [0x0A, 0x0A] sections;
            w2 = w1\<lparr>calls := calls w1 @ [SendRequest (userQuery combinedText)]\<rparr>
        in case chat_response env (userQuery combinedText) of
             Inl e \<Rightarrow> (Inl e, w2)
           | Inr responseText \<Rightarrow> (Inr (records_of_response responseText), w2))"

text \<open>
  The copy of the function in \<^verbatim>\<open>extension.ts\<close>, whose body is elided there:
  \<^verbatim>\<open>// same code from your snippet\<close>, \<^verbatim>\<open>return [];\<close>
\<close>

definition parseReleaseNotesWithCopilot_elided ::
  "env \<Rightarrow> jsstring list \<Rightarrow> world \<Rightarrow> (exn + json) \<times> world" where
  "parseReleaseNotesWithCopilot_elided env sections w = (Inr (JArray []), w)"

text \<open>
  The catalog store, as \<^verbatim>\<open>getOrCreateReleaseNotes\<close> has it inline. The file of a
  version is \<^verbatim>\<open>path.join(storagePath, `chromeReleaseNotes_${versionNumber}.json`)\<close>
  (\<open>path_join\<close> puts one separator between the two; the normalisation \<^verbatim>\<open>path.join\<close>
  does besides is left out). \<open>load_catalog\<close> is the block under
  \<^verbatim>\<open>if (fs.existsSync(filePath))\<close>: \<open>None\<close> when the file is absent, or when
  \<^verbatim>\<open>JSON.parse\<close> or the \<^verbatim>\<open>${parsed.length}\<close> of the log line throws inside \<^verbatim>\<open>try\<close>.
  \<open>ensure_directory\<close> is the \<^verbatim>\<open>fs.mkdirSync\<close> at the top.
\<close>

definition path_join :: "jsstring \<Rightarrow> jsstring \<Rightarrow> jsstring" where
  "path_join dir name = dir @ js ''/'' @ name"

definition catalog_file :: "jsstring \<Rightarrow> jsstring \<Rightarrow> jsstring" where
  "catalog_file storagePath versionNumber =
     path_join storagePath (js ''chromeReleaseNotes_'' @ versionNumber @ js ''.json'')"

definition load_catalog :: "world \<Rightarrow> jsstring \<Rightarrow> json option" where
  "load_catalog w filePath =
     (case files w filePath of
        None \<Rightarrow> None
      | Some existingData \<Rightarrow>
          (case JSON_parse existingData of
             None \<Rightarrow> None
           | Some parsed \<Rightarrow> if parsed_length_throws parsed then None else Some parsed))"

text \<open>
  \<open>save_catalog\<close> is \<^verbatim>\<open>fs.writeFileSync(filePath, JSON.stringify(newData, null, 2), 'utf8')\<close>.
  A file holds the text that \<^verbatim>\<open>fs.readFileSync(filePath, 'utf-8')\<close> reads from it. Written
  as UTF-8 and read back, a text keeps its surrogate pairs, and every unpaired surrogate
  has become U+FFFD: that is \<open>utf8_text\<close>.
\<close>

fun utf8_text :: "jsstring \<Rightarrow> jsstring" where
  "utf8_text [] = []"
| "utf8_text [c] = (if leading_surrogate c \<or> trailing_surrogate c then [0xFFFD] else [c])"
| "utf8_text (c # d # ds) =
     (if leading_surrogate c \<and> trailing_surrogate d then c # d # utf8_text ds
      else if leading_surrogate c \<or> trailing_surrogate c then 0xFFFD # utf8_text (d # ds)
      else c # utf8_text (d # ds))"

definition save_catalog :: "jsstring \<Rightarrow> json \<Rightarrow> world \<Rightarrow> world" where
  "save_catalog filePath newData w =
     w\<lparr>files := (files w)(filePath \<mapsto> utf8_text (JSON_stringify newData))\<rparr>"

definition ensure_directory :: "jsstring \<Rightarrow> world \<Rightarrow> world" where
  "ensure_directory storagePath w =
     (if storagePath \<in> directories w then w
      else w\<lparr>directories := insert storagePath (directories w)\<rparr>)"

text \<open>
  \<^verbatim>\<open>getOrCreateReleaseNotes\<close>, with the step that calls the language model as its first
  argument (the two copies of the source differ in that step only). The result is the
  value returned or the error thrown, and the state afterwards.
\<close>

definition getOrCreateReleaseNotes ::
  "(env \<Rightarrow> jsstring list \<Rightarrow> world \<Rightarrow> (exn + json) \<times> world) \<Rightarrow>
   env \<Rightarrow> jsstring \<Rightarrow> jsstring \<Rightarrow> jsstring \<Rightarrow> world \<Rightarrow> (exn + json) \<times> world" where
  "getOrCreateReleaseNotes parseNotes env versionNumber releaseNotesURL storagePath w =
     (let w1 = ensure_directory storagePath w;
          filePath = catalog_file storagePath versionNumber
      in case load_catalog w1 filePath of
           Some parsed \<Rightarrow> (Inr parsed, w1)
         | None \<Rightarrow>
             (case fetchReleaseNotesHTML env releaseNotesURL w1 of
                (Inl e, w2) \<Rightarrow> (Inl e, w2)
              | (Inr rawHTML, w2) \<Rightarrow>
                  (case parseNotes env (parseHTMLwithCheerio env rawHTML) w2 of
                     (Inl e, w3) \<Rightarrow> (Inl e, w3)
                   | (Inr newData, w3) \<Rightarrow> (Inr newData, save_catalog filePath newData w3))))"

section \<open>Facts about the pattern and the search\<close>

lemma not_syntax_b: "\<not> syntax_character 0x62"
  by (simp add: syntax_character_def js_def)

lemma syntax_backslash: "syntax_character 0x5C"
  by (simp add: syntax_character_def)

lemma parse_pattern_escape:
  "parse_pattern (escape_replace A @ [0x5C, 0x62]) = Some (map PatternCharacter A @ [WordBoundary])"
proof (induction A)
  case Nil
  show ?case by (simp add: escape_replace_def)
next
  case (Cons c A)
  obtain d ds where rest: "escape_replace A @ [0x5C, 0x62] = d # ds"
    by (cases "escape_replace A @ [0x5C, 0x62]") auto
  show ?case
  proof (cases "syntax_character c")
    case True
    then have "c \<noteq> 0x62" using not_syntax_b by auto
    with True Cons show ?thesis by (simp add: escape_replace_def)
  next
    case False
    then have "c \<noteq> 0x5C" using syntax_backslash by auto
    moreover have "escape_replace (c # A) @ [0x5C, 0x62] = c # d # ds"
      using False rest by (simp add: escape_replace_def)
    ultimately show ?thesis using False Cons rest by simp
  qed
qed

lemma parse_pattern_source:
  "parse_pattern (pattern_source A) = Some (WordBoundary # map PatternCharacter A @ [WordBoundary])"
  by (simp add: pattern_source_def parse_pattern_escape)

lemma matcher_literal:
  "matcher (map PatternCharacter A @ ts) s i =
     (if take (length A) (drop i s) = A then matcher ts s (i + length A) else None)"
proof (induction A arbitrary: i)
  case Nil
  show ?case by simp
next
  case (Cons c A)
  show ?case
  proof (cases "i < length s")
    case True
    then have "drop i s = s ! i # drop (Suc i) s" by (simp add: Cons_nth_drop_Suc)
    then show ?thesis using Cons True by auto
  next
    case False
    then show ?thesis by simp
  qed
qed

lemma regexp_search_Some:
  "regexp_search b s i = Some (k, e) \<Longrightarrow>
     i \<le> k \<and> k \<le> length s \<and> matcher b s k = Some e \<and> (\<forall>j. i \<le> j \<and> j < k \<longrightarrow> matcher b s j = None)"
proof (induction b s i rule: regexp_search.induct)
  case (1 b s i)
  show ?case
  proof (cases "matcher b s i")
    case None
    with "1.prems" have le: "\<not> length s < i" and rec: "regexp_search b s (Suc i) = Some (k, e)"
      by (auto simp: regexp_search.simps [of b s i] split: if_splits)
    from "1.IH" [OF le None rec] None show ?thesis
      by (auto simp: less_Suc_eq_le elim: le_neq_implies_less dest: le_antisym) (metis Suc_leI le_neq_implies_less)
  next
    case (Some e')
    with "1.prems" show ?thesis
      by (auto simp: regexp_search.simps [of b s i] split: if_splits)
  qed
qed

lemma regexp_search_None:
  "regexp_search b s i = None \<Longrightarrow> i \<le> j \<Longrightarrow> j \<le> length s \<Longrightarrow> matcher b s j = None"
proof (induction b s i rule: regexp_search.induct)
  case (1 b s i)
  from "1.prems" have le: "\<not> length s < i" by simp
  with "1.prems" have none: "matcher b s i = None" and rec: "regexp_search b s (Suc i) = None"
    by (auto simp: regexp_search.simps [of b s i] split: option.splits)
  show ?case
  proof (cases "j = i")
    case True with none show ?thesis by simp
  next
    case False
    with "1.prems" have "Suc i \<le> j" by simp
    from "1.IH" [OF le none rec this "1.prems"(3)] show ?thesis .
  qed
qed

section \<open>The sequence of matches of a scan\<close>

function match_indices :: "rx_atom list \<Rightarrow> jsstring \<Rightarrow> nat \<Rightarrow> nat list" where
  "match_indices b s i =
     (case regexp_search b s i of
        None \<Rightarrow> []
      | Some (k, e) \<Rightarrow> if k < e then k # match_indices b s e else [])"
  by pat_completeness auto
termination
proof (relation "measure (\<lambda>(b, s, i). Suc (length s) - i)")
  show "wf (measure (\<lambda>(b, s, i). Suc (length s) - i))" by simp
next
  fix b s i x2 k e
  assume "regexp_search b s i = Some x2" "(k, e) = x2" "k < e"
  then have "i \<le> k \<and> k \<le> length s" using regexp_search_Some [of b s i k e] by simp
  with \<open>k < e\<close> show "((b, s, e), (b, s, i)) \<in> measure (\<lambda>(b, s, i). Suc (length s) - i)"
    by auto
qed

declare match_indices.simps [simp del]

definition progresses :: "rx_atom list \<Rightarrow> bool" where
  "progresses b = (\<exists>c. PatternCharacter c \<in> set b)"

lemma matcher_mono: "matcher b s i = Some e \<Longrightarrow> i \<le> e"
  by (induction b s i rule: matcher.induct) (auto split: if_splits)

lemma matcher_progress:
  "matcher b s i = Some e \<Longrightarrow> PatternCharacter c \<in> set b \<Longrightarrow> i < e"
proof (induction b s i rule: matcher.induct)
  case (1 s i)
  then show ?case by simp
next
  case (2 ts s i)
  then show ?case by (auto split: if_splits)
next
  case (3 d ts s i)
  then have m: "matcher ts s (Suc i) = Some e" by (auto split: if_splits)
  from matcher_mono [OF m] show ?case by simp
qed

lemma while_exec_total:
  assumes "progresses b"
  shows "while_exec \<lparr>body = b, lastIndex = i\<rparr> s dep st =
           Some (foldl (\<lambda>st k. push_match dep k st) st (match_indices b s i))"
  using assms
proof (induction b s i arbitrary: st rule: match_indices.induct)
  case (1 b s i)
  show ?case
  proof (cases "regexp_search b s i")
    case None
    then show ?thesis
      by (subst while_exec.simps) (simp add: exec_def match_indices.simps [of b s i])
  next
    case (Some p)
    obtain k e where p: "p = (k, e)" by (cases p)
    from Some p have srch: "regexp_search b s i = Some (k, e)" by simp
    from regexp_search_Some [OF srch] have m: "matcher b s k = Some e" by simp
    from "1.prems" obtain c where "PatternCharacter c \<in> set b" by (auto simp: progresses_def)
    from matcher_progress [OF m this] have lt: "k < e" .
    have "while_exec \<lparr>body = b, lastIndex = e\<rparr> s dep (push_match dep k st) =
            Some (foldl (\<lambda>st k. push_match dep k st) (push_match dep k st) (match_indices b s e))"
      using "1.IH" [OF srch refl lt "1.prems"] .
    then show ?thesis
      using srch lt
      by (subst while_exec.simps) (simp add: exec_def match_indices.simps [of b s i])
  qed
qed

text \<open>A match of length zero at \<open>lastIndex\<close> is found again by every later call.\<close>

lemma while_exec_stuck:
  "while_exec r text dep st = Some y \<Longrightarrow>
     \<not> (lastIndex r \<le> length text \<and> matcher (body r) text (lastIndex r) = Some (lastIndex r))"
proof (induction rule: while_exec.raw_induct [rotated 1, consumes 1])
  case (1 loop r s dep st y)
  show ?case
  proof
    assume stuck: "lastIndex r \<le> length s \<and> matcher (body r) s (lastIndex r) = Some (lastIndex r)"
    then have "regexp_search (body r) s (lastIndex r) = Some (lastIndex r, lastIndex r)"
      by (simp add: regexp_search.simps [of "body r" s "lastIndex r"])
    then have ex: "exec r s = (Some (lastIndex r), r)" by (simp add: exec_def)
    with "1.hyps" have "loop r s dep (push_match dep (lastIndex r) st) = Some y" by simp
    from "1.IH" [OF this] stuck show False by simp
  qed
qed

section \<open>The scan of one record and of a catalog\<close>

definition name_body :: "jsstring \<Rightarrow> rx_atom list" where
  "name_body A = WordBoundary # map PatternCharacter A @ [WordBoundary]"

definition matches_at :: "jsstring \<Rightarrow> jsstring \<Rightarrow> nat \<Rightarrow> bool" where
  "matches_at A s i =
     (at_word_boundary s i \<and> take (length A) (drop i s) = A \<and> at_word_boundary s (i + length A))"

definition name_indices :: "jsstring \<Rightarrow> jsstring \<Rightarrow> nat list" where
  "name_indices A s = match_indices (name_body A) s 0"

definition has_word_character :: "jsstring \<Rightarrow> bool" where
  "has_word_character s = (\<exists>c\<in>set s. word_character c)"

lemma new_RegExp_name:
  "new_RegExp (pattern_source A) = Some \<lparr>body = name_body A, lastIndex = 0\<rparr>"
  by (simp add: new_RegExp_def parse_pattern_source name_body_def)

lemma matcher_name_body:
  "matcher (name_body A) s i = (if matches_at A s i then Some (i + length A) else None)"
  by (simp add: name_body_def matcher_literal matches_at_def)

lemma progresses_name_body: "A \<noteq> [] \<Longrightarrow> progresses (name_body A)"
  by (cases A) (auto simp: progresses_def name_body_def)

lemma scan_dep_nonempty:
  "apiName dep \<noteq> [] \<Longrightarrow>
   scan_dep s dep st =
     Some (Inr (foldl (\<lambda>st k. push_match dep k st) st (name_indices (apiName dep) s)))"
  by (simp add: scan_dep_def new_RegExp_name while_exec_total progresses_name_body name_indices_def)

lemma boundary_imp_word: "at_word_boundary s i \<Longrightarrow> has_word_character s"
proof -
  assume "at_word_boundary s i"
  then obtain e where "is_word_char s e" by (auto simp: at_word_boundary_def)
  then have "nat e < length s" "word_character (s ! nat e)" by (auto simp: is_word_char_def)
  then show ?thesis unfolding has_word_character_def by (metis nth_mem)
qed

lemma word_imp_boundary:
  assumes "has_word_character s"
  shows "\<exists>i\<le>length s. at_word_boundary s i"
proof -
  from assms obtain j where j: "j < length s" "word_character (s ! j)"
    by (auto simp: has_word_character_def in_set_conv_nth)
  define m where "m = (LEAST j. j < length s \<and> word_character (s ! j))"
  have m: "m < length s \<and> word_character (s ! m)"
    unfolding m_def using j by (rule_tac LeastI [of _ j]) simp
  have least: "\<And>k. k < m \<Longrightarrow> \<not> (k < length s \<and> word_character (s ! k))"
    unfolding m_def by (rule not_less_Least)
  have "is_word_char s (int m)" using m by (simp add: is_word_char_def)
  moreover have "\<not> is_word_char s (int m - 1)"
  proof (cases m)
    case 0 then show ?thesis by (simp add: is_word_char_def)
  next
    case (Suc k)
    with least [of k] m show ?thesis by (simp add: is_word_char_def)
  qed
  ultimately have "at_word_boundary s m" by (simp add: at_word_boundary_def)
  with m show ?thesis by (intro exI [of _ m]) simp
qed

lemma matcher_empty_name:
  "matcher (name_body []) s i = (if at_word_boundary s i then Some i else None)"
  by (simp add: name_body_def)

lemma while_exec_empty_name:
  "while_exec \<lparr>body = name_body [], lastIndex = 0\<rparr> s dep st =
     (if has_word_character s then None else Some st)"
proof (cases "regexp_search (name_body []) s 0")
  case None
  have "\<not> has_word_character s"
  proof
    assume "has_word_character s"
    from word_imp_boundary [OF this] obtain i where i: "i \<le> length s" "at_word_boundary s i" by auto
    from regexp_search_None [OF None _ i(1)] i(2) show False by (simp add: matcher_empty_name)
  qed
  with None show ?thesis by (subst while_exec.simps) (simp add: exec_def)
next
  case (Some p)
  obtain k e where p: "p = (k, e)" by (cases p)
  from Some p have srch: "regexp_search (name_body []) s 0 = Some (k, e)" by simp
  from regexp_search_Some [OF srch] have k: "k \<le> length s" and m: "matcher (name_body []) s k = Some e"
    by simp_all
  from m have bd: "at_word_boundary s k" and e: "e = k"
    by (auto simp: matcher_empty_name split: if_splits)
  from boundary_imp_word [OF bd] have w: "has_word_character s" .
  have "while_exec \<lparr>body = name_body [], lastIndex = k\<rparr> s dep (push_match dep k st) = None"
  proof (cases "while_exec \<lparr>body = name_body [], lastIndex = k\<rparr> s dep (push_match dep k st)")
    case None then show ?thesis .
  next
    case (Some y)
    from while_exec_stuck [OF Some] k m e show ?thesis by simp
  qed
  with srch e w show ?thesis by (subst while_exec.simps) (simp add: exec_def)
qed

lemma name_indices_empty_no_word: "\<not> has_word_character s \<Longrightarrow> name_indices [] s = []"
proof -
  assume nw: "\<not> has_word_character s"
  have "regexp_search (name_body []) s 0 = None"
  proof (cases "regexp_search (name_body []) s 0")
    case None then show ?thesis .
  next
    case (Some p)
    obtain k e where "p = (k, e)" by (cases p)
    with Some regexp_search_Some [of "name_body []" s 0 k e]
    have "matcher (name_body []) s k = Some e" by simp
    then have "at_word_boundary s k" by (auto simp: matcher_empty_name split: if_splits)
    from boundary_imp_word [OF this] nw show ?thesis by simp
  qed
  then show ?thesis by (simp add: name_indices_def match_indices.simps [of _ s 0])
qed

lemma scan_dep_eq:
  "scan_dep s dep st =
     (if apiName dep = [] \<and> has_word_character s then None
      else Some (Inr (foldl (\<lambda>st k. push_match dep k st) st (name_indices (apiName dep) s))))"
proof (cases "apiName dep = []")
  case False
  then show ?thesis by (simp add: scan_dep_nonempty)
next
  case True
  then show ?thesis
    by (simp add: scan_dep_def new_RegExp_name while_exec_empty_name name_indices_empty_no_word)
qed

definition all_diagnostics :: "jsstring \<Rightarrow> DeprecatedAPI list \<Rightarrow> Diagnostic list" where
  "all_diagnostics s deps =
     concat (map (\<lambda>dep. map (make_diagnostic dep) (name_indices (apiName dep) s)) deps)"

definition all_decorations :: "jsstring \<Rightarrow> DeprecatedAPI list \<Rightarrow> DecorationOptions list" where
  "all_decorations s deps =
     concat (map (\<lambda>dep. map (make_decoration dep) (name_indices (apiName dep) s)) deps)"

lemma foldl_push_match:
  "foldl (\<lambda>st k. push_match dep k st) st ks =
     \<lparr>diagnostics = diagnostics st @ map (make_diagnostic dep) ks,
      decorationOptions = decorationOptions st @ map (make_decoration dep) ks\<rparr>"
  by (induction ks arbitrary: st) (simp_all add: push_match_def)

lemma for_deprecations_eq:
  "for_deprecations s deps st =
     (if \<exists>dep\<in>set deps. apiName dep = [] \<and> has_word_character s then None
      else Some (Inr \<lparr>diagnostics = diagnostics st @ all_diagnostics s deps,
                      decorationOptions = decorationOptions st @ all_decorations s deps\<rparr>))"
proof (induction deps arbitrary: st)
  case Nil
  show ?case by (simp add: all_diagnostics_def all_decorations_def)
next
  case (Cons dep deps)
  show ?case
    by (simp add: scan_dep_eq Cons foldl_push_match all_diagnostics_def all_decorations_def)
qed

lemma checkForDeprecations_eq:
  "checkForDeprecations doc deps ed =
     (if \<exists>dep\<in>set deps. apiName dep = [] \<and> has_word_character (getText doc) then None
      else Some (Inr (publish doc \<lparr>diagnostics = all_diagnostics (getText doc) deps,
                                   decorationOptions = all_decorations (getText doc) deps\<rparr> ed)))"
  by (simp add: checkForDeprecations_def for_deprecations_eq)

lemma match_indices_props:
  "k \<in> set (match_indices b s i) \<Longrightarrow> i \<le> k \<and> k \<le> length s \<and> (\<exists>e. matcher b s k = Some e)"
proof (induction b s i rule: match_indices.induct)
  case (1 b s i)
  show ?case
  proof (cases "regexp_search b s i")
    case None
    with "1.prems" show ?thesis by (simp add: match_indices.simps [of b s i])
  next
    case (Some p)
    obtain k' e where p: "p = (k', e)" by (cases p)
    from Some p have srch: "regexp_search b s i = Some (k', e)" by simp
    note rs = regexp_search_Some [OF srch]
    show ?thesis
    proof (cases "k' < e")
      case False
      with srch "1.prems" show ?thesis by (simp add: match_indices.simps [of b s i])
    next
      case True
      with srch "1.prems" have "k = k' \<or> k \<in> set (match_indices b s e)"
        by (simp add: match_indices.simps [of b s i])
      then show ?thesis
      proof
        assume "k = k'" with rs show ?thesis by simp
      next
        assume "k \<in> set (match_indices b s e)"
        from "1.IH" [OF srch refl True this] rs True show ?thesis by simp
      qed
    qed
  qed
qed

lemma match_indices_sorted: "sorted_wrt (<) (match_indices b s i)"
proof (induction b s i rule: match_indices.induct)
  case (1 b s i)
  show ?case
  proof (cases "regexp_search b s i")
    case None
    then show ?thesis by (simp add: match_indices.simps [of b s i])
  next
    case (Some p)
    obtain k' e where p: "p = (k', e)" by (cases p)
    from Some p have srch: "regexp_search b s i = Some (k', e)" by simp
    show ?thesis
    proof (cases "k' < e")
      case False
      with srch show ?thesis by (simp add: match_indices.simps [of b s i])
    next
      case True
      have "\<forall>k\<in>set (match_indices b s e). k' < k"
        using match_indices_props [of _ b s e] True by (meson less_le_trans)
      with "1.IH" [OF srch refl True] srch True show ?thesis
        by (simp add: match_indices.simps [of b s i])
    qed
  qed
qed

lemma name_indices_matches: "k \<in> set (name_indices A s) \<Longrightarrow> matches_at A s k"
  using match_indices_props [of k "name_body A" s 0]
  by (auto simp: name_indices_def matcher_name_body split: if_splits)

lemma matches_at_range:
  "matches_at A s k \<Longrightarrow> k + length A \<le> length s \<and> take (length A) (drop k s) = A"
proof -
  assume m: "matches_at A s k"
  then have t: "take (length A) (drop k s) = A" by (simp add: matches_at_def)
  then have "length (take (length A) (drop k s)) = length A" by simp
  then have "length A \<le> length s - k" by simp
  moreover have "k \<le> length s"
  proof (rule ccontr)
    assume "\<not> k \<le> length s"
    then have "\<not> is_word_char s (int k - 1)" "\<not> is_word_char s (int k)"
      by (auto simp: is_word_char_def)
    with m show False by (simp add: matches_at_def at_word_boundary_def)
  qed
  ultimately show ?thesis using t by simp
qed

lemma checkForDeprecations_returns:
  "checkForDeprecations doc deps ed = Some (Inr ed') \<Longrightarrow>
     ed' = publish doc \<lparr>diagnostics = all_diagnostics (getText doc) deps,
                        decorationOptions = all_decorations (getText doc) deps\<rparr> ed"
  by (simp add: checkForDeprecations_eq split: if_splits)

section \<open>Printing a string and reading it back\<close>

lemma unat_of_nat_small: "k < 65536 \<Longrightarrow> unat (of_nat k :: code_unit) = k"
  by (simp add: unat_of_nat)

lemma hex_value_hex_digit:
  assumes "n < 16"
  shows "hex_value (hex_digit n) = Some n"
proof (cases "n < 10")
  case True
  define c :: code_unit where "c = of_nat (0x30 + n)"
  have u: "unat c = 48 + n" unfolding c_def using True by (subst unat_of_nat_small) simp_all
  have "hex_value c = Some n"
    using True by (simp add: hex_value_def word_le_nat_alt u)
  with True show ?thesis by (simp only: hex_digit_def c_def if_True)
next
  case False
  define c :: code_unit where "c = of_nat (0x61 + (n - 10))"
  have u: "unat c = 97 + (n - 10)" unfolding c_def using assms by (subst unat_of_nat_small) simp_all
  have "hex_value c = Some n"
    using False assms by (simp add: hex_value_def word_le_nat_alt u)
  with False show ?thesis by (simp only: hex_digit_def c_def if_False)
qed

lemma nibbles:
  "((n div 4096 * 16 + n div 256 mod 16) * 16 + n div 16 mod 16) * 16 + n mod 16 = (n::nat)"
proof -
  have a: "n div 256 = n div 4096 * 16 + n div 256 mod 16"
    using div_mult_mod_eq [of "n div 256" 16] by (simp add: div_mult2_eq [symmetric])
  have b: "n div 16 = n div 256 * 16 + n div 16 mod 16"
    using div_mult_mod_eq [of "n div 16" 16] by (simp add: div_mult2_eq [symmetric])
  have c: "n = n div 16 * 16 + n mod 16" by simp
  show ?thesis using a b c by presburger
qed

lemma hex4_unicode_escape:
  "hex4 (hex_digit (unat c div 4096)) (hex_digit (unat c div 256 mod 16))
        (hex_digit (unat c div 16 mod 16)) (hex_digit (unat c mod 16)) = Some (c :: code_unit)"
proof -
  have lt: "unat c < 65536" using unsigned_less [of c, where 'a = nat] by simp
  then have d: "unat c div 4096 < 16" by simp
  have "hex4 (hex_digit (unat c div 4096)) (hex_digit (unat c div 256 mod 16))
        (hex_digit (unat c div 16 mod 16)) (hex_digit (unat c mod 16))
      = Some (of_nat (((unat c div 4096 * 16 + unat c div 256 mod 16) * 16 + unat c div 16 mod 16) * 16
                + unat c mod 16))"
    unfolding hex4_def using d by (simp only: hex_value_hex_digit mod_less_divisor zero_less_numeral
        prod.case option.case)
  moreover have "(of_nat (unat c) :: code_unit) = c" by simp
  ultimately show ?thesis by (simp only: nibbles)
qed

lemma lex_string_unicode_escape:
  "lex_string (unicode_escape c @ rest) = map_option (\<lambda>(s, r). (c # s, r)) (lex_string rest)"
  by (simp add: unicode_escape_def hex4_unicode_escape del: of_nat_unat)

lemma lex_string_escape2:
  "simple_escape e = Some u \<Longrightarrow> e \<noteq> 0x75 \<Longrightarrow>
   lex_string (0x5C # e # rest) = map_option (\<lambda>(s, r). (u # s, r)) (lex_string rest)"
  by simp

lemma lex_string_plain:
  "c \<noteq> 0x22 \<Longrightarrow> c \<noteq> 0x5C \<Longrightarrow> \<not> c < 0x20 \<Longrightarrow>
   lex_string (c # rest) = map_option (\<lambda>(s, r). (c # s, r)) (lex_string rest)"
  by simp

lemma surrogate_plain:
  "leading_surrogate c \<or> trailing_surrogate c \<Longrightarrow> c \<noteq> 0x22 \<and> c \<noteq> 0x5C \<and> \<not> c < 0x20"
  by (auto simp: leading_surrogate_def trailing_surrogate_def word_le_nat_alt word_less_nat_alt)

lemma lex_string_quote_units:
  "lex_string (quote_units s @ 0x22 # rest) = Some (s, rest)"
proof (induction s rule: length_induct)
  case (1 s)
  show ?case
  proof (cases s)
    case Nil
    then show ?thesis by simp
  next
    case (Cons c cs)
    have IH: "lex_string (quote_units cs @ 0x22 # rest) = Some (cs, rest)"
      using 1 Cons by simp
    have esc: "\<And>e. simple_escape e = Some c \<Longrightarrow> e \<noteq> 0x75 \<Longrightarrow>
      lex_string (([0x5C, e] @ quote_units cs) @ 0x22 # rest) = Some (c # cs, rest)"
      using IH by (simp add: lex_string_escape2 del: lex_string.simps)
    have uni: "lex_string ((unicode_escape c @ quote_units cs) @ 0x22 # rest) = Some (c # cs, rest)"
      using IH by (simp add: lex_string_unicode_escape del: lex_string.simps)
    consider (b) "c = 0x08" | (t) "c = 0x09" | (n) "c = 0x0A" | (f) "c = 0x0C" | (r) "c = 0x0D"
      | (q) "c = 0x22" | (bs) "c = 0x5C"
      | (other) "c \<noteq> 0x08" "c \<noteq> 0x09" "c \<noteq> 0x0A" "c \<noteq> 0x0C" "c \<noteq> 0x0D" "c \<noteq> 0x22" "c \<noteq> 0x5C"
      by blast
    then show ?thesis
    proof cases
      case b
      have "quote_units (c # cs) = [0x5C, 0x62] @ quote_units cs" using b by simp
      moreover have "simple_escape 0x62 = Some c" using b by (simp add: simple_escape_def)
      ultimately show ?thesis using esc [of "0x62"] Cons by simp
    next
      case t
      have "quote_units (c # cs) = [0x5C, 0x74] @ quote_units cs" using t by simp
      moreover have "simple_escape 0x74 = Some c" using t by (simp add: simple_escape_def)
      ultimately show ?thesis using esc [of "0x74"] Cons by simp
    next
      case n
      have "quote_units (c # cs) = [0x5C, 0x6E] @ quote_units cs" using n by simp
      moreover have "simple_escape 0x6E = Some c" using n by (simp add: simple_escape_def)
      ultimately show ?thesis using esc [of "0x6E"] Cons by simp
    next
      case f
      have "quote_units (c # cs) = [0x5C, 0x66] @ quote_units cs" using f by simp
      moreover have "simple_escape 0x66 = Some c" using f by (simp add: simple_escape_def)
      ultimately show ?thesis using esc [of "0x66"] Cons by simp
    next
      case r
      have "quote_units (c # cs) = [0x5C, 0x72] @ quote_units cs" using r by simp
      moreover have "simple_escape 0x72 = Some c" using r by (simp add: simple_escape_def)
      ultimately show ?thesis using esc [of "0x72"] Cons by simp
    next
      case q
      have "quote_units (c # cs) = [0x5C, 0x22] @ quote_units cs" using q by simp
      moreover have "simple_escape 0x22 = Some c" using q by (simp add: simple_escape_def)
      ultimately show ?thesis using esc [of "0x22"] Cons by simp
    next
      case bs
      have "quote_units (c # cs) = [0x5C, 0x5C] @ quote_units cs" using bs by simp
      moreover have "simple_escape 0x5C = Some c" using bs by (simp add: simple_escape_def)
      ultimately show ?thesis using esc [of "0x5C"] Cons by simp
    next
      case other
      show ?thesis
      proof (cases "c < 0x20")
        case True
        with other have "quote_units (c # cs) = unicode_escape c @ quote_units cs" by simp
        with uni Cons show ?thesis by simp
      next
        case ctl: False
        show ?thesis
        proof (cases "leading_surrogate c")
          case True
          show ?thesis
          proof (cases cs)
            case Nil
            with other ctl True have "quote_units (c # cs) = unicode_escape c @ quote_units cs"
              by simp
            with uni Cons show ?thesis by simp
          next
            case (Cons d ds)
            show ?thesis
            proof (cases "trailing_surrogate d")
              case False
              with other ctl True Cons
              have "quote_units (c # cs) = unicode_escape c @ quote_units cs" by simp
              with uni \<open>s = c # cs\<close> show ?thesis by simp
            next
              case td: True
              with other ctl True Cons
              have qu: "quote_units (c # cs) = c # d # quote_units ds" by simp
              have "lex_string (quote_units ds @ 0x22 # rest) = Some (ds, rest)"
                using 1 Cons \<open>s = c # cs\<close> by simp
              moreover from surrogate_plain [of d] td
              have d: "d \<noteq> 0x22" "d \<noteq> 0x5C" "\<not> d < 0x20" by simp_all
              ultimately have "lex_string (c # d # quote_units ds @ 0x22 # rest) = Some (c # d # ds, rest)"
                by (simp add: lex_string_plain [OF other(6,7) ctl] lex_string_plain [OF d]
                    del: lex_string.simps)
              with qu Cons \<open>s = c # cs\<close> show ?thesis by simp
            qed
          qed
        next
          case nl: False
          show ?thesis
          proof (cases "trailing_surrogate c")
            case True
            with other ctl nl have "quote_units (c # cs) = unicode_escape c @ quote_units cs"
              by simp
            with uni Cons show ?thesis by simp
          next
            case False
            with other ctl nl have "quote_units (c # cs) = c # quote_units cs" by simp
            moreover have "lex_string (c # quote_units cs @ 0x22 # rest) = Some (c # cs, rest)"
              using IH by (simp add: lex_string_plain [OF other(6,7) ctl] del: lex_string.simps)
            ultimately show ?thesis using Cons by simp
          qed
        qed
      qed
    qed
  qed
qed

lemma tokenize_QuoteJSONString:
  "tokenize (QuoteJSONString s @ rest) = map_option (Cons (TString s)) (tokenize rest)"
  by (simp add: tokenize.simps QuoteJSONString_def json_whitespace_def lex_string_quote_units)

section \<open>Printing a catalog and reading it back\<close>

text \<open>
  The tokens of a printed object of strings and of a printed array of such objects.
  \<open>ordinary_keys\<close>: the keys are distinct and none is an array index, so that
  \<^verbatim>\<open>JSON.parse\<close> keeps them in the order they are written.
\<close>

definition ordinary_keys :: "(jsstring \<times> jsstring) list \<Rightarrow> bool" where
  "ordinary_keys ms = (distinct (map fst ms) \<and> list_all (\<lambda>k. array_index k = None) (map fst ms))"

fun member_tokens :: "jsstring \<times> jsstring \<Rightarrow> token list" where
  "member_tokens (k, s) = [TString k, TColon, TString s]"

fun comma_separated :: "token list list \<Rightarrow> token list" where
  "comma_separated [] = []"
| "comma_separated [x] = x"
| "comma_separated (x # y # ys) = x @ TComma # comma_separated (y # ys)"

definition object_tokens :: "(jsstring \<times> jsstring) list \<Rightarrow> token list" where
  "object_tokens ms = TLBrace # comma_separated (map member_tokens ms) @ [TRBrace]"

lemma tokenize_space: "json_whitespace c \<Longrightarrow> tokenize (c # cs) = tokenize cs"
  by (simp add: tokenize.simps)

lemma tokenize_spaces: "list_all json_whitespace ws \<Longrightarrow> tokenize (ws @ rest) = tokenize rest"
  by (induction ws) (simp_all add: tokenize_space)

lemma tokenize_punctuation:
  "tokenize (0x5B # cs) = map_option (Cons TLBracket) (tokenize cs)"
  "tokenize (0x5D # cs) = map_option (Cons TRBracket) (tokenize cs)"
  "tokenize (0x7B # cs) = map_option (Cons TLBrace) (tokenize cs)"
  "tokenize (0x7D # cs) = map_option (Cons TRBrace) (tokenize cs)"
  "tokenize (0x3A # cs) = map_option (Cons TColon) (tokenize cs)"
  "tokenize (0x2C # cs) = map_option (Cons TComma) (tokenize cs)"
  by (simp_all add: tokenize.simps json_whitespace_def)

lemma tokenize_newline: "tokenize (0x0A # cs) = tokenize cs"
  and tokenize_blank: "tokenize (0x20 # cs) = tokenize cs"
  by (simp_all add: tokenize_space json_whitespace_def)

lemma all_whitespace_gap: "list_all json_whitespace ind \<Longrightarrow> list_all json_whitespace (ind @ gap)"
  by (simp add: gap_def js_def json_whitespace_def)

text \<open>One member \<open>"key": "value"\<close> of a printed object.\<close>

definition member_text :: "jsstring \<Rightarrow> jsstring \<times> jsstring \<Rightarrow> jsstring" where
  "member_text ind m = (case m of (k, s) \<Rightarrow> QuoteJSONString k @ js '': '' @ serialize ind (JString s))"

lemma tokenize_member:
  assumes "tokenize rest = Some ts"
  shows "tokenize (member_text ind m @ rest) = Some (member_tokens m @ ts)"
  using assms
  by (cases m) (simp add: member_text_def tokenize_QuoteJSONString js_def tokenize_punctuation tokenize_blank)

lemma tokenize_members:
  assumes ws: "list_all json_whitespace ind" and rest: "tokenize rest = Some ts" and ne: "ms \<noteq> []"
  shows "tokenize (join ([0x2C, 0x0A] @ ind) (map (member_text ind) ms) @ rest)
           = Some (comma_separated (map member_tokens ms) @ ts)"
  using ne
proof (induction ms rule: induct_list012)
  case 1
  then show ?case by simp
next
  case (2 m)
  show ?case using tokenize_member [OF rest] by simp
next
  case (3 m m' ms)
  then have IH: "tokenize (join ([0x2C, 0x0A] @ ind) (map (member_text ind) (m' # ms)) @ rest)
           = Some (comma_separated (map member_tokens (m' # ms)) @ ts)" by simp
  have "tokenize ([0x2C, 0x0A] @ ind @ join ([0x2C, 0x0A] @ ind) (map (member_text ind) (m' # ms)) @ rest)
           = Some (TComma # comma_separated (map member_tokens (m' # ms)) @ ts)"
    using IH ws by (simp add: tokenize_punctuation tokenize_newline tokenize_spaces)
  from tokenize_member [OF this, of ind m] show ?case by simp
qed

lemma serialize_string_object:
  "serialize ind (string_object ms) =
     (if ms = [] then js ''{}''
      else [0x7B, 0x0A] @ (ind @ gap)
           @ join ([0x2C, 0x0A] @ (ind @ gap)) (map (member_text (ind @ gap)) ms)
           @ [0x0A] @ ind @ [0x7D])"
proof -
  have "(\<lambda>(k, v). QuoteJSONString k @ js '': '' @ serialize (ind @ gap) v) \<circ> (\<lambda>(k, s). (k, JString s))
          = member_text (ind @ gap)"
    by (auto simp: member_text_def fun_eq_iff)
  then have "map (\<lambda>(k, v). QuoteJSONString k @ js '': '' @ serialize (ind @ gap) v)
          (map (\<lambda>(k, s). (k, JString s)) ms) = map (member_text (ind @ gap)) ms"
    by (simp only: map_map)
  then show ?thesis by (simp add: string_object_def del: map_map) (simp add: js_def)
qed

lemma tokenize_object:
  assumes ws: "list_all json_whitespace ind" and rest: "tokenize rest = Some ts"
  shows "tokenize (serialize ind (string_object ms) @ rest) = Some (object_tokens ms @ ts)"
proof (cases "ms = []")
  case True
  with rest show ?thesis
    by (simp add: serialize_string_object js_def tokenize_punctuation object_tokens_def)
next
  case False
  have "tokenize ([0x0A] @ ind @ [0x7D] @ rest) = Some (TRBrace # ts)"
    using ws rest by (simp add: tokenize_newline tokenize_spaces tokenize_punctuation)
  from tokenize_members [OF all_whitespace_gap [OF ws] this False]
  have "tokenize ([0x7B, 0x0A] @ (ind @ gap)
           @ join ([0x2C, 0x0A] @ (ind @ gap)) (map (member_text (ind @ gap)) ms)
           @ [0x0A] @ ind @ [0x7D] @ rest) = Some (object_tokens ms @ ts)"
    using all_whitespace_gap [OF ws]
    by (simp add: tokenize_punctuation tokenize_newline tokenize_spaces object_tokens_def)
  with False show ?thesis by (simp add: serialize_string_object)
qed

lemma tokenize_objects:
  assumes ws: "list_all json_whitespace ind" and rest: "tokenize rest = Some ts" and ne: "C \<noteq> []"
  shows "tokenize (join ([0x2C, 0x0A] @ ind) (map (serialize ind) (map string_object C)) @ rest)
           = Some (comma_separated (map object_tokens C) @ ts)"
  using ne
proof (induction C rule: induct_list012)
  case 1
  then show ?case by simp
next
  case (2 d)
  show ?case using tokenize_object [OF ws rest] by simp
next
  case (3 d e C)
  then have IH: "tokenize (join ([0x2C, 0x0A] @ ind) (map (serialize ind) (map string_object (e # C))) @ rest)
           = Some (comma_separated (map object_tokens (e # C)) @ ts)" by simp
  have "tokenize ([0x2C, 0x0A] @ ind @ join ([0x2C, 0x0A] @ ind) (map (serialize ind) (map string_object (e # C))) @ rest)
           = Some (TComma # comma_separated (map object_tokens (e # C)) @ ts)"
    using IH ws by (simp add: tokenize_punctuation tokenize_newline tokenize_spaces)
  from tokenize_object [OF ws this, of d] show ?case by simp
qed

lemma tokenize_array_of_objects:
  "tokenize (JSON_stringify (JArray (map string_object C))) =
     Some (TLBracket # comma_separated (map object_tokens C) @ [TRBracket])"
proof (cases "C = []")
  case True
  then show ?thesis
    by (simp add: JSON_stringify_def js_def tokenize_punctuation tokenize.simps(1))
next
  case False
  have ws: "list_all json_whitespace gap" by (simp add: gap_def js_def json_whitespace_def)
  have "tokenize ([0x0A] @ [0x5D]) = Some [TRBracket]"
    by (simp add: tokenize_newline tokenize_punctuation tokenize.simps(1))
  from tokenize_objects [OF ws this False]
  have "tokenize (js ''['' @ [0x0A] @ gap @ join ([0x2C, 0x0A] @ gap) (map (serialize gap) (map string_object C))
               @ [0x0A] @ [0x5D])
        = Some (TLBracket # comma_separated (map object_tokens C) @ [TRBracket])"
    using ws by (simp add: js_def tokenize_punctuation tokenize_newline tokenize_spaces)
  with False show ?thesis by (simp add: JSON_stringify_def js_def)
qed

lemma run_append: "run c (ts @ us) = (case run c ts of None \<Rightarrow> None | Some c' \<Rightarrow> run c' us)"
  by (induction ts arbitrary: c) (auto split: option.splits)

lemma define_property_fresh:
  "k \<notin> fst ` set acc \<Longrightarrow> array_index k = None \<Longrightarrow> define_property acc k v = acc @ [(k, v)]"
  by (simp add: define_property_def)

lemma run_member:
  assumes "fst m \<notin> fst ` set acc" and "array_index (fst m) = None" and "e = Key \<or> e = KeyOrClose"
  shows "run (ObjectFrame acc # st, e) (member_tokens m)
           = Some (ObjectFrame (acc @ [(fst m, JString (snd m))]) # st, CommaOrClose)"
  using assms
  by (cases m) (auto simp: begin_member_def begin_value_def define_property_fresh)

lemma run_members:
  assumes "ms \<noteq> []" and "distinct (map fst acc @ map fst ms)"
    and "list_all (\<lambda>k. array_index k = None) (map fst ms)" and "e = Key \<or> e = KeyOrClose"
  shows "run (ObjectFrame acc # st, e) (comma_separated (map member_tokens ms))
           = Some (ObjectFrame (acc @ map (\<lambda>(k, s). (k, JString s)) ms) # st, CommaOrClose)"
  using assms
proof (induction ms arbitrary: acc e rule: induct_list012)
  case 1
  then show ?case by simp
next
  case (2 m)
  then have "fst m \<notin> fst ` set acc" "array_index (fst m) = None" by auto
  from run_member [OF this "2.prems"(4)] show ?case by (cases m) simp
next
  case (3 m m' ms)
  then have fresh: "fst m \<notin> fst ` set acc" "array_index (fst m) = None" by auto
  have d: "distinct (map fst (acc @ [(fst m, JString (snd m))]) @ map fst (m' # ms))"
    using "3.prems"(2) by auto
  have n: "list_all (\<lambda>k. array_index k = None) (map fst (m' # ms))"
    using "3.prems"(3) by simp
  have rest: "run (ObjectFrame (acc @ [(fst m, JString (snd m))]) # st, Key)
            (comma_separated (map member_tokens (m' # ms)))
          = Some (ObjectFrame ((acc @ [(fst m, JString (snd m))]) @ map (\<lambda>(k, s). (k, JString s)) (m' # ms)) # st,
                  CommaOrClose)"
    using "3.IH"(2) [OF _ d n, of Key] by simp
  have first: "run (ObjectFrame acc # st, e) (member_tokens m)
           = Some (ObjectFrame (acc @ [(fst m, JString (snd m))]) # st, CommaOrClose)"
    by (rule run_member [OF fresh "3.prems"(4)])
  have comma: "step (ObjectFrame (acc @ [(fst m, JString (snd m))]) # st, CommaOrClose) TComma
           = Some (ObjectFrame (acc @ [(fst m, JString (snd m))]) # st, Key)" by simp
  have "run (ObjectFrame acc # st, e)
          (member_tokens m @ TComma # comma_separated (map member_tokens (m' # ms)))
        = Some (ObjectFrame ((acc @ [(fst m, JString (snd m))]) @ map (\<lambda>(k, s). (k, JString s)) (m' # ms)) # st,
                  CommaOrClose)"
    using first comma rest by (simp add: run_append del: member_tokens.simps step.simps)
  then show ?case by (cases m) (simp del: member_tokens.simps run.simps)
qed

lemma run_object:
  assumes "ordinary_keys ms" and "e = Value \<or> e = ValueOrClose"
  shows "run (st, e) (object_tokens ms) = deliver (string_object ms) st"
proof -
  have open_brace: "step (st, e) TLBrace = Some (ObjectFrame [] # st, KeyOrClose)"
    using assms(2) by (auto simp: begin_value_def)
  show ?thesis
  proof (cases "ms = []")
    case True
    have "run (st, e) [TLBrace, TRBrace] = deliver (JObject []) st"
      using open_brace by (simp add: close_frame_def split: option.splits)
    with True show ?thesis by (simp add: object_tokens_def string_object_def del: run.simps)
  next
    case False
    from assms(1) have "distinct (map fst ([] :: (jsstring \<times> json) list) @ map fst ms)"
      and "list_all (\<lambda>k. array_index k = None) (map fst ms)"
      by (simp_all add: ordinary_keys_def)
    from run_members [OF False this, of KeyOrClose st]
    have members: "run (ObjectFrame [] # st, KeyOrClose) (comma_separated (map member_tokens ms))
            = Some (ObjectFrame (map (\<lambda>(k, s). (k, JString s)) ms) # st, CommaOrClose)" by simp
    have close: "run (ObjectFrame (map (\<lambda>(k, s). (k, JString s)) ms) # st, CommaOrClose) [TRBrace]
            = deliver (string_object ms) st"
      by (simp add: close_frame_def string_object_def split: option.splits)
    have "run (st, e) (TLBrace # comma_separated (map member_tokens ms) @ [TRBrace])
            = deliver (string_object ms) st"
      using open_brace members close by (simp add: run_append del: step.simps)
    then show ?thesis by (simp only: object_tokens_def)
  qed
qed

lemma run_objects:
  assumes "C \<noteq> []" and "list_all ordinary_keys C" and "e = Value \<or> e = ValueOrClose"
  shows "run (ArrayFrame xs # st, e) (comma_separated (map object_tokens C))
           = Some (ArrayFrame (xs @ map string_object C) # st, CommaOrClose)"
  using assms
proof (induction C arbitrary: xs e rule: induct_list012)
  case 1
  then show ?case by simp
next
  case (2 d)
  then show ?case using run_object [of d e "ArrayFrame xs # st"] by simp
next
  case (3 d d' C)
  have "run (ArrayFrame (xs @ [string_object d]) # st, Value) (comma_separated (map object_tokens (d' # C)))
          = Some (ArrayFrame ((xs @ [string_object d]) @ map string_object (d' # C)) # st, CommaOrClose)"
    using "3.IH"(2) [of Value] "3.prems"(2) by simp
  moreover have "run (ArrayFrame xs # st, e) (object_tokens d)
          = Some (ArrayFrame (xs @ [string_object d]) # st, CommaOrClose)"
    using run_object [of d e "ArrayFrame xs # st"] "3.prems"(2,3) by simp
  moreover have "step (ArrayFrame (xs @ [string_object d]) # st, CommaOrClose) TComma
          = Some (ArrayFrame (xs @ [string_object d]) # st, Value)" by simp
  ultimately have "run (ArrayFrame xs # st, e)
          (object_tokens d @ TComma # comma_separated (map object_tokens (d' # C)))
        = Some (ArrayFrame ((xs @ [string_object d]) @ map string_object (d' # C)) # st, CommaOrClose)"
    by (simp add: run_append del: step.simps)
  then show ?case by simp
qed

lemma run_array_of_objects:
  assumes "list_all ordinary_keys C"
  shows "run ([], Value) (TLBracket # comma_separated (map object_tokens C) @ [TRBracket])
           = Some ([], Finished (JArray (map string_object C)))"
proof (cases "C = []")
  case True
  then show ?thesis by (simp add: begin_value_def close_frame_def)
next
  case False
  have open_bracket: "step ([], Value) TLBracket = Some ([ArrayFrame []], ValueOrClose)"
    by (simp add: begin_value_def)
  from run_objects [OF False assms, of ValueOrClose "[]" "[]"]
  have elements: "run ([ArrayFrame []], ValueOrClose) (comma_separated (map object_tokens C))
          = Some ([ArrayFrame (map string_object C)], CommaOrClose)" by simp
  have close: "run ([ArrayFrame (map string_object C)], CommaOrClose) [TRBracket]
          = Some ([], Finished (JArray (map string_object C)))"
    by (simp add: close_frame_def)
  show ?thesis using open_bracket elements close by (simp add: run_append del: step.simps)
qed

lemma JSON_parse_stringify_objects:
  "list_all ordinary_keys C \<Longrightarrow>
   JSON_parse (JSON_stringify (JArray (map string_object C))) = Some (JArray (map string_object C))"
  by (simp add: JSON_parse_def tokenize_array_of_objects run_array_of_objects del: run.simps)

lemma array_index_names:
  "array_index (js ''apiName'') = None" "array_index (js ''changeType'') = None"
  "array_index (js ''description'') = None"
  by (simp_all add: array_index_def js_def is_digit_def)

lemma names_distinct:
  "js ''apiName'' \<noteq> js ''changeType''" "js ''apiName'' \<noteq> js ''description''"
  "js ''changeType'' \<noteq> js ''description''"
  by (simp_all add: js_def)

lemma ordinary_record_fields:
  "ordinary_keys [(js ''apiName'', a), (js ''changeType'', c), (js ''description'', d)]"
  using names_distinct by (simp add: ordinary_keys_def array_index_names)

lemma JSON_parse_stringify_catalog:
  "JSON_parse (JSON_stringify (catalog_json C)) = Some (catalog_json C)"
proof -
  let ?fields = "\<lambda>d. [(js ''apiName'', apiName d), (js ''changeType'', changeType d),
                       (js ''description'', description d)]"
  have "catalog_json C = JArray (map string_object (map ?fields C))"
    by (simp add: catalog_json_def record_json_def o_def)
  moreover have "list_all ordinary_keys (map ?fields C)"
    by (induction C) (simp_all add: ordinary_record_fields)
  ultimately show ?thesis using JSON_parse_stringify_objects [of "map ?fields C"] by simp
qed

lemma valid_record_ordinary: "valid_record ms \<Longrightarrow> ordinary_keys ms"
proof -
  assume v: "valid_record ms"
  have "\<And>k. k \<in> set (map fst ms) \<Longrightarrow> array_index k = None"
    using v array_index_names unfolding valid_record_def by auto
  with v show ?thesis
    unfolding ordinary_keys_def valid_record_def list_all_iff by blast
qed

section \<open>What is printed is written and read back unchanged\<close>

text \<open>
  A text is well formed when it has no unpaired surrogate; such a text is written and read
  back as it is, and \<^verbatim>\<open>JSON.stringify\<close> prints a catalog as a well-formed text, whatever
  code units its strings hold.
\<close>

fun well_formed :: "jsstring \<Rightarrow> bool" where
  "well_formed [] = True"
| "well_formed [c] = (\<not> leading_surrogate c \<and> \<not> trailing_surrogate c)"
| "well_formed (c # d # ds) =
     (if leading_surrogate c then trailing_surrogate d \<and> well_formed ds
      else \<not> trailing_surrogate c \<and> well_formed (d # ds))"

lemma not_both_surrogates: "leading_surrogate c \<Longrightarrow> \<not> trailing_surrogate c"
  by (auto simp: leading_surrogate_def trailing_surrogate_def word_le_nat_alt)

lemma utf8_text_well_formed: "well_formed s \<Longrightarrow> utf8_text s = s"
  by (induction s rule: well_formed.induct) (auto split: if_splits dest: not_both_surrogates)

lemma well_formed_Cons:
  "\<not> leading_surrogate c \<Longrightarrow> \<not> trailing_surrogate c \<Longrightarrow> well_formed (c # s) = well_formed s"
  by (cases s) simp_all

lemma well_formed_pair:
  "leading_surrogate c \<Longrightarrow> trailing_surrogate d \<Longrightarrow> well_formed (c # d # s) = well_formed s"
  by simp

lemma well_formed_append: "well_formed a \<Longrightarrow> well_formed (a @ b) = well_formed b"
proof (induction a rule: well_formed.induct)
  case 1
  show ?case by simp
next
  case (2 c)
  then show ?case by (simp add: well_formed_Cons)
next
  case (3 c d ds)
  then show ?case by (auto split: if_splits simp: well_formed_Cons)
qed

declare well_formed.simps [simp del]

lemma well_formed_Nil [simp]: "well_formed []"
  by (simp add: well_formed.simps)

definition basic :: "code_unit \<Rightarrow> bool" where
  "basic c = (c < 0xD800)"

lemma basic_not_surrogate: "basic c \<Longrightarrow> \<not> leading_surrogate c \<and> \<not> trailing_surrogate c"
  by (auto simp: basic_def leading_surrogate_def trailing_surrogate_def word_le_nat_alt word_less_nat_alt)

lemma well_formed_basic: "list_all basic s \<Longrightarrow> well_formed s"
  by (induction s) (simp_all add: well_formed_Nil well_formed_Cons basic_not_surrogate)

lemma basic_hex_digit: "n < 16 \<Longrightarrow> basic (hex_digit n)"
proof -
  assume n: "n < 16"
  have "unat (hex_digit n) < 0xD800"
  proof (cases "n < 10")
    case True
    then have "unat (of_nat (0x30 + n) :: code_unit) = 0x30 + n" by (subst unat_of_nat_small) simp_all
    with True show ?thesis by (simp add: hex_digit_def)
  next
    case False
    with n have "unat (of_nat (0x61 + (n - 10)) :: code_unit) = 0x61 + (n - 10)"
      by (subst unat_of_nat_small) simp_all
    with False n show ?thesis by (simp add: hex_digit_def)
  qed
  then show ?thesis by (simp add: basic_def word_less_nat_alt)
qed

lemma basic_unicode_escape: "list_all basic (unicode_escape c)"
proof -
  have "unat c < 65536" using unsigned_less [of c, where 'a = nat] by simp
  then have "unat c div 4096 < 16" by simp
  then show ?thesis by (simp add: unicode_escape_def basic_hex_digit) (simp add: basic_def)
qed

lemma well_formed_unicode_escape: "well_formed (unicode_escape c @ s) = well_formed s"
  by (rule well_formed_append) (rule well_formed_basic [OF basic_unicode_escape])

lemma well_formed_basic_Cons: "basic c \<Longrightarrow> well_formed (c # s) = well_formed s"
  by (simp add: well_formed_Cons basic_not_surrogate)

lemma well_formed_escape2: "basic e \<Longrightarrow> well_formed ([0x5C, e] @ s) = well_formed s"
  by (simp add: well_formed_Nil well_formed_basic_Cons basic_def)

lemma well_formed_quote_units: "well_formed (quote_units s)"
proof (induction s rule: length_induct)
  case (1 s)
  show ?case
  proof (cases s)
    case Nil
    then show ?thesis by simp
  next
    case (Cons c cs)
    have IH: "well_formed (quote_units cs)" using 1 Cons by simp
    have esc: "\<And>e. basic e \<Longrightarrow> well_formed ([0x5C, e] @ quote_units cs)"
      using IH by (simp only: well_formed_escape2)
    have uni: "well_formed (unicode_escape c @ quote_units cs)"
      using IH by (simp only: well_formed_unicode_escape)
    consider (b) "c = 0x08" | (t) "c = 0x09" | (n) "c = 0x0A" | (f) "c = 0x0C" | (r) "c = 0x0D"
      | (q) "c = 0x22" | (bs) "c = 0x5C"
      | (other) "c \<noteq> 0x08" "c \<noteq> 0x09" "c \<noteq> 0x0A" "c \<noteq> 0x0C" "c \<noteq> 0x0D" "c \<noteq> 0x22" "c \<noteq> 0x5C"
      by blast
    then show ?thesis
    proof cases
      case b
      then have "quote_units (c # cs) = [0x5C, 0x62] @ quote_units cs" by simp
      with esc [of "0x62"] Cons show ?thesis by (simp add: basic_def)
    next
      case t
      then have "quote_units (c # cs) = [0x5C, 0x74] @ quote_units cs" by simp
      with esc [of "0x74"] Cons show ?thesis by (simp add: basic_def)
    next
      case n
      then have "quote_units (c # cs) = [0x5C, 0x6E] @ quote_units cs" by simp
      with esc [of "0x6E"] Cons show ?thesis by (simp add: basic_def)
    next
      case f
      then have "quote_units (c # cs) = [0x5C, 0x66] @ quote_units cs" by simp
      with esc [of "0x66"] Cons show ?thesis by (simp add: basic_def)
    next
      case r
      then have "quote_units (c # cs) = [0x5C, 0x72] @ quote_units cs" by simp
      with esc [of "0x72"] Cons show ?thesis by (simp add: basic_def)
    next
      case q
      then have "quote_units (c # cs) = [0x5C, 0x22] @ quote_units cs" by simp
      with esc [of "0x22"] Cons show ?thesis by (simp add: basic_def)
    next
      case bs
      then have "quote_units (c # cs) = [0x5C, 0x5C] @ quote_units cs" by simp
      with esc [of "0x5C"] Cons show ?thesis by (simp add: basic_def)
    next
      case other
      show ?thesis
      proof (cases "c < 0x20")
        case True
        with other have "quote_units (c # cs) = unicode_escape c @ quote_units cs" by simp
        with uni Cons show ?thesis by simp
      next
        case ctl: False
        show ?thesis
        proof (cases "leading_surrogate c")
          case True
          show ?thesis
          proof (cases cs)
            case Nil
            with other ctl True have "quote_units (c # cs) = unicode_escape c @ quote_units cs"
              by simp
            with uni Cons show ?thesis by simp
          next
            case (Cons d ds)
            show ?thesis
            proof (cases "trailing_surrogate d")
              case False
              with other ctl True Cons
              have "quote_units (c # cs) = unicode_escape c @ quote_units cs" by simp
              with uni \<open>s = c # cs\<close> show ?thesis by simp
            next
              case td: True
              with other ctl True Cons
              have qu: "quote_units (c # cs) = c # d # quote_units ds" by simp
              have "well_formed (quote_units ds)" using 1 Cons \<open>s = c # cs\<close> by simp
              then have "well_formed (c # d # quote_units ds)"
                by (simp add: well_formed_pair [OF True td])
              with qu \<open>s = c # cs\<close> show ?thesis by simp
            qed
          qed
        next
          case nl: False
          show ?thesis
          proof (cases "trailing_surrogate c")
            case True
            with other ctl nl have "quote_units (c # cs) = unicode_escape c @ quote_units cs"
              by simp
            with uni Cons show ?thesis by simp
          next
            case False
            with other ctl nl have "quote_units (c # cs) = c # quote_units cs" by simp
            moreover have "well_formed (c # quote_units cs)"
              using IH by (simp add: well_formed_Cons [OF nl False])
            ultimately show ?thesis using Cons by simp
          qed
        qed
      qed
    qed
  qed
qed

lemma well_formed_appendI: "well_formed a \<Longrightarrow> well_formed b \<Longrightarrow> well_formed (a @ b)"
  by (simp add: well_formed_append)

lemma well_formed_QuoteJSONString: "well_formed (QuoteJSONString s)"
  by (simp add: QuoteJSONString_def well_formed_Nil well_formed_basic_Cons basic_def well_formed_append
      well_formed_quote_units)

lemma well_formed_join:
  "well_formed sep \<Longrightarrow> list_all well_formed xs \<Longrightarrow> well_formed (join sep xs)"
  by (induction sep xs rule: join.induct) (simp_all add: well_formed_appendI)

lemma well_formed_spaces: "list_all json_whitespace ind \<Longrightarrow> well_formed ind"
  by (rule well_formed_basic) (auto simp: list_all_iff json_whitespace_def basic_def)

lemma well_formed_member_text: "well_formed (member_text ind m)"
  by (cases m)
     (simp add: member_text_def js_def well_formed_append well_formed_QuoteJSONString
        well_formed_Nil well_formed_basic_Cons basic_def)

lemma well_formed_separator:
  "list_all json_whitespace ind \<Longrightarrow> well_formed ([0x2C, 0x0A] @ ind)"
  by (simp add: well_formed_Nil well_formed_basic_Cons basic_def well_formed_spaces)

lemma well_formed_string_object:
  assumes "list_all json_whitespace ind"
  shows "well_formed (serialize ind (string_object ms))"
proof (cases "ms = []")
  case True
  then show ?thesis
    by (simp add: serialize_string_object js_def well_formed_Nil well_formed_basic_Cons basic_def)
next
  case False
  note ws = all_whitespace_gap [OF assms]
  have members: "well_formed (join ([0x2C, 0x0A] @ (ind @ gap)) (map (member_text (ind @ gap)) ms))"
    by (rule well_formed_join [OF well_formed_separator [OF ws]])
       (simp add: list_all_iff well_formed_member_text)
  have tail: "well_formed ([0x0A] @ ind @ [0x7D])"
    using well_formed_spaces [OF assms]
    by (simp add: well_formed_Nil well_formed_basic_Cons basic_def well_formed_append)
  have "well_formed ([0x7B, 0x0A] @ (ind @ gap)
           @ join ([0x2C, 0x0A] @ (ind @ gap)) (map (member_text (ind @ gap)) ms)
           @ [0x0A] @ ind @ [0x7D])"
    by (intro well_formed_appendI members tail well_formed_spaces [OF ws])
       (simp add: well_formed_Nil well_formed_basic_Cons basic_def)
  with False show ?thesis by (simp only: serialize_string_object if_False)
qed

lemma well_formed_array_of_objects: "well_formed (JSON_stringify (JArray (map string_object C)))"
proof (cases "C = []")
  case True
  then show ?thesis
    by (simp add: JSON_stringify_def js_def well_formed_Nil well_formed_basic_Cons basic_def)
next
  case False
  have ws: "list_all json_whitespace gap" by (simp add: gap_def js_def json_whitespace_def)
  have elements: "well_formed (join ([0x2C, 0x0A] @ gap) (map (serialize gap) (map string_object C)))"
    by (rule well_formed_join [OF well_formed_separator [OF ws]])
       (simp add: list_all_iff well_formed_string_object [OF ws])
  have "well_formed (js ''['' @ [0x0A] @ gap
           @ join ([0x2C, 0x0A] @ gap) (map (serialize gap) (map string_object C))
           @ [0x0A] @ js '']'')"
    by (intro well_formed_appendI elements well_formed_spaces [OF ws])
       (simp_all add: js_def well_formed_Nil well_formed_basic_Cons basic_def)
  with False show ?thesis by (simp add: JSON_stringify_def)
qed

lemma utf8_text_array_of_objects:
  "utf8_text (JSON_stringify (JArray (map string_object C))) = JSON_stringify (JArray (map string_object C))"
  by (rule utf8_text_well_formed [OF well_formed_array_of_objects])

lemma utf8_text_empty_array: "utf8_text (js ''[]'') = js ''[]''"
  by (rule utf8_text_well_formed) (simp add: js_def well_formed_Nil well_formed_basic_Cons basic_def)

section \<open>Facts about the acquisition\<close>

lemma take_length_eq_conv: "take (length p) s = p \<longleftrightarrow> (\<exists>post. s = p @ post)"
proof
  assume "take (length p) s = p"
  then have "s = p @ drop (length p) s" by (metis append_take_drop_id)
  then show "\<exists>post. s = p @ post" ..
next
  assume "\<exists>post. s = p @ post"
  then show "take (length p) s = p" by auto
qed

lemma lazy_until_Some: "lazy_until close s = Some m \<Longrightarrow> \<exists>post. s = m @ close @ post"
proof (induction s arbitrary: m)
  case Nil
  then show ?case by (auto split: if_splits)
next
  case (Cons c cs)
  show ?case
  proof (cases "take (length close) (c # cs) = close")
    case True
    with Cons.prems have "m = []" by simp
    with True show ?thesis by (simp add: take_length_eq_conv)
  next
    case False
    with Cons.prems obtain m' where m': "lazy_until close cs = Some m'" and m: "m = c # m'" by auto
    from Cons.IH [OF m'] m show ?thesis by auto
  qed
qed

lemma lazy_until_finds: "lazy_until close (m @ close @ post) \<noteq> None"
proof (induction m)
  case Nil
  have t: "take (length close) (close @ post) = close" by simp
  show ?case
  proof (cases "close @ post")
    case Nil
    then show ?thesis by simp
  next
    case (Cons a list)
    with t have "take (length close) (a # list) = close" by simp
    with Cons show ?thesis by (simp del: take_Suc_Cons)
  qed
next
  case (Cons c m)
  then show ?case by auto
qed

lemma jsonRegex_exec_Some:
  "jsonRegex_exec s = Some m \<Longrightarrow> \<exists>pre post. s = pre @ js ''```json'' @ m @ js ''```'' @ post"
proof (induction s)
  case Nil
  then show ?case by simp
next
  case (Cons c cs)
  have len: "length (js ''```json'') = 7" by (simp add: js_def)
  show ?case
  proof (cases "take 7 (c # cs) = js ''```json'' \<and> lazy_until (js ''```'') (drop 7 (c # cs)) = Some m")
    case True
    then have "c # cs = js ''```json'' @ drop 7 (c # cs)" by (metis append_take_drop_id)
    moreover from lazy_until_Some True obtain post where "drop 7 (c # cs) = m @ js ''```'' @ post"
      by blast
    ultimately have "c # cs = [] @ js ''```json'' @ m @ js ''```'' @ post"
      by (simp only: append_Nil)
    then show ?thesis by blast
  next
    case False
    with Cons.prems have "jsonRegex_exec cs = Some m" by (auto split: if_splits option.splits)
    from Cons.IH [OF this] obtain pre post where "cs = pre @ js ''```json'' @ m @ js ''```'' @ post"
      by blast
    then have "c # cs = (c # pre) @ js ''```json'' @ m @ js ''```'' @ post" by simp
    then show ?thesis by blast
  qed
qed

lemma jsonRegex_exec_finds:
  "jsonRegex_exec (pre @ js ''```json'' @ m @ js ''```'' @ post) \<noteq> None"
proof (induction pre)
  case Nil
  have len: "length (js ''```json'') = 7" by (simp add: js_def)
  obtain c cs where s: "js ''```json'' @ m @ js ''```'' @ post = c # cs" by (simp add: js_def)
  have t: "take 7 (c # cs) = js ''```json''" using s len by (metis append_eq_conv_conj)
  have d: "drop 7 (c # cs) = m @ js ''```'' @ post" using s len by (metis append_eq_conv_conj)
  from lazy_until_finds [of "js ''```''" m post] obtain m' where
    "lazy_until (js ''```'') (m @ js ''```'' @ post) = Some m'" by auto
  with t d have "jsonRegex_exec (c # cs) = Some m'" by (simp del: drop_Suc_Cons take_Suc_Cons)
  with s show ?case by simp
next
  case (Cons c pre)
  then show ?case by (auto split: option.splits)
qed

lemma jsonRegex_exec_None_iff:
  "jsonRegex_exec s = None \<longleftrightarrow> \<not> (\<exists>pre m post. s = pre @ js ''```json'' @ m @ js ''```'' @ post)"
proof
  assume "jsonRegex_exec s = None"
  then show "\<not> (\<exists>pre m post. s = pre @ js ''```json'' @ m @ js ''```'' @ post)"
    using jsonRegex_exec_finds by blast
next
  assume "\<not> (\<exists>pre m post. s = pre @ js ''```json'' @ m @ js ''```'' @ post)"
  then show "jsonRegex_exec s = None"
    using jsonRegex_exec_Some by (cases "jsonRegex_exec s") blast+
qed

lemma load_catalog_ensure_directory [simp]:
  "load_catalog (ensure_directory sp w) p = load_catalog w p"
  by (simp add: load_catalog_def ensure_directory_def)

lemma ensure_directory_fields [simp]:
  "files (ensure_directory sp w) = files w" "calls (ensure_directory sp w) = calls w"
  by (simp_all add: ensure_directory_def)

lemma ensure_directory_idem [simp]: "ensure_directory sp (ensure_directory sp w) = ensure_directory sp w"
  by (simp add: ensure_directory_def)

lemma getOrCreateReleaseNotes_hit:
  "load_catalog w (catalog_file sp v) = Some parsed \<Longrightarrow>
   getOrCreateReleaseNotes parseNotes env v url sp w = (Inr parsed, ensure_directory sp w)"
  by (simp add: getOrCreateReleaseNotes_def Let_def)

lemma getOrCreateReleaseNotes_miss:
  "load_catalog w (catalog_file sp v) = None \<Longrightarrow>
   getOrCreateReleaseNotes parseNotes env v url sp w =
     (case axios_get env url of
        Inl e \<Rightarrow> (Inl e, (ensure_directory sp w)\<lparr>calls := calls w @ [HttpGet url]\<rparr>)
      | Inr rawHTML \<Rightarrow>
          (case parseNotes env (parseHTMLwithCheerio env rawHTML)
                  ((ensure_directory sp w)\<lparr>calls := calls w @ [HttpGet url]\<rparr>) of
             (Inl e, w3) \<Rightarrow> (Inl e, w3)
           | (Inr newData, w3) \<Rightarrow> (Inr newData, save_catalog (catalog_file sp v) newData w3)))"
  by (simp add: getOrCreateReleaseNotes_def Let_def fetchReleaseNotesHTML_def split: sum.splits)

lemma parseReleaseNotesWithCopilot_files [simp]:
  "files (snd (parseReleaseNotesWithCopilot env sections w)) = files w"
  by (simp add: parseReleaseNotesWithCopilot_def Let_def split: sum.splits)

lemma parsed_length_throws_simps [simp]:
  "parsed_length_throws JNull"
  "\<not> parsed_length_throws (JBool b)"
  "\<not> parsed_length_throws (JNumber n)"
  "\<not> parsed_length_throws (JString t)"
  "\<not> parsed_length_throws (JArray vs)"
  by (simp_all add: parsed_length_throws_def)

lemma parsed_length_throws_object:
  "js ''length'' \<notin> fst ` set ms \<Longrightarrow> \<not> parsed_length_throws (JObject ms)"
proof -
  assume "js ''length'' \<notin> fst ` set ms"
  then have "map_of ms (js ''length'') = None" by (simp add: map_of_eq_None_iff)
  then show ?thesis by (simp add: parsed_length_throws_def)
qed

lemma load_save_catalog:
  "utf8_text (JSON_stringify v) = JSON_stringify v \<Longrightarrow>
   JSON_parse (JSON_stringify v) = Some v \<Longrightarrow> \<not> parsed_length_throws v \<Longrightarrow>
   load_catalog (save_catalog p v w) p = Some v"
  by (simp add: load_catalog_def save_catalog_def)

lemma parseReleaseNotesWithCopilot_response:
  "0 < chat_models env \<Longrightarrow>
   chat_response env (userQuery (join [0x0A, 0x0A] sections)) = Inr responseText \<Longrightarrow>
   fst (parseReleaseNotesWithCopilot env sections w) = Inr (records_of_response responseText)"
  by (simp add: parseReleaseNotesWithCopilot_def Let_def)

lemma parseReleaseNotesWithCopilot_no_model:
  "chat_models env = 0 \<Longrightarrow> fst (parseReleaseNotesWithCopilot env sections w) = Inr (JArray [])"
  by (simp add: parseReleaseNotesWithCopilot_def Let_def)

lemma parseReleaseNotesWithCopilot_throws:
  "0 < chat_models env \<Longrightarrow>
   chat_response env (userQuery (join [0x0A, 0x0A] sections)) = Inl e \<Longrightarrow>
   fst (parseReleaseNotesWithCopilot env sections w) = Inl e"
  by (simp add: parseReleaseNotesWithCopilot_def Let_def)

lemma acquire_miss_fetch_fails:
  "load_catalog w (catalog_file sp v) = None \<Longrightarrow> axios_get env url = Inl e \<Longrightarrow>
   getOrCreateReleaseNotes parseNotes env v url sp w
     = (Inl e, (ensure_directory sp w)\<lparr>calls := calls w @ [HttpGet url]\<rparr>)"
  by (simp add: getOrCreateReleaseNotes_miss)

lemma acquire_miss_parse:
  assumes "load_catalog w (catalog_file sp v) = None" and "axios_get env url = Inr html"
  shows "fst (getOrCreateReleaseNotes parseReleaseNotesWithCopilot env v url sp w)
           = fst (parseReleaseNotesWithCopilot env (parseHTMLwithCheerio env html)
                   ((ensure_directory sp w)\<lparr>calls := calls w @ [HttpGet url]\<rparr>))"
    and "files (snd (getOrCreateReleaseNotes parseReleaseNotesWithCopilot env v url sp w))
           = (case fst (parseReleaseNotesWithCopilot env (parseHTMLwithCheerio env html)
                   ((ensure_directory sp w)\<lparr>calls := calls w @ [HttpGet url]\<rparr>)) of
                Inl e \<Rightarrow> files w
              | Inr newData \<Rightarrow> (files w)(catalog_file sp v \<mapsto> utf8_text (JSON_stringify newData)))"
proof -
  let ?w2 = "(ensure_directory sp w)\<lparr>calls := calls w @ [HttpGet url]\<rparr>"
  let ?p = "parseReleaseNotesWithCopilot env (parseHTMLwithCheerio env html) ?w2"
  have f: "files (snd ?p) = files w" by simp
  show "fst (getOrCreateReleaseNotes parseReleaseNotesWithCopilot env v url sp w) = fst ?p"
    using assms by (cases ?p) (auto simp: getOrCreateReleaseNotes_miss split: sum.splits)
  show "files (snd (getOrCreateReleaseNotes parseReleaseNotesWithCopilot env v url sp w))
           = (case fst ?p of Inl e \<Rightarrow> files w
              | Inr newData \<Rightarrow> (files w)(catalog_file sp v \<mapsto> utf8_text (JSON_stringify newData)))"
    using assms f
    by (cases ?p) (auto simp: getOrCreateReleaseNotes_miss save_catalog_def split: sum.splits)
qed

lemma empty_array_text:
  "JSON_stringify (JArray []) = js ''[]''"
  "JSON_parse (js ''[]'') = Some (JArray [])"
  by code_simp+

lemma parseReleaseNotesWithCopilot_directories [simp]:
  "directories (snd (parseReleaseNotesWithCopilot env sections w)) = directories w"
  by (simp add: parseReleaseNotesWithCopilot_def Let_def split: sum.splits)

lemma ensure_directory_present: "sp \<in> directories w \<Longrightarrow> ensure_directory sp w = w"
  by (simp add: ensure_directory_def)

lemma acquire_miss_directories:
  assumes "load_catalog w (catalog_file sp v) = None" and "axios_get env url = Inr html"
  shows "sp \<in> directories (snd (getOrCreateReleaseNotes parseReleaseNotesWithCopilot env v url sp w))"
proof -
  let ?w2 = "(ensure_directory sp w)\<lparr>calls := calls w @ [HttpGet url]\<rparr>"
  let ?p = "parseReleaseNotesWithCopilot env (parseHTMLwithCheerio env html) ?w2"
  have "directories (snd ?p) = directories ?w2" by simp
  moreover have "sp \<in> directories ?w2" by (simp add: ensure_directory_def)
  ultimately show ?thesis
    using assms
    by (cases ?p) (auto simp: getOrCreateReleaseNotes_miss save_catalog_def split: sum.splits)
qed

lemma no_fenced_block: "jsonRegex_exec (js ''no deprecations'') = None"
  by code_simp

text \<open>
  The log line at work: an object whose \<open>length\<close> cannot be converted to a string is
  not returned, by the parser of the response and by the reading of the store alike.
\<close>

lemma log_line_examples:
  "records_of_response (js ''```json{\"length\":{\"toString\":1}}```'') = JArray []"
  "records_of_response (js ''```json{\"length\":[[{\"toString\":1}]]}```'') = JArray []"
  "records_of_response (js ''```json{\"length\":[null, {\"valueOf\":1}]}```'')
     = JObject [(js ''length'', JArray [JNull, JObject [(js ''valueOf'', JNumber (js ''1''))]])]"
  "load_catalog \<lparr>files = [js ''f'' \<mapsto> js ''{\"length\":{\"toString\":1}}''], directories = {}, calls = []\<rparr>
     (js ''f'') = None"
  by code_simp+

section \<open>C1: names with metacharacters\<close>

lemma name_indices_none: "(\<And>k. \<not> matches_at A s k) \<Longrightarrow> name_indices A s = []"
proof (cases "name_indices A s")
  case Nil then show ?thesis .
next
  case (Cons k ks)
  assume none: "\<And>k. \<not> matches_at A s k"
  from Cons have "k \<in> set (name_indices A s)" by simp
  from name_indices_matches [OF this] none show ?thesis by simp
qed

lemma match_indices_covers:
  "b = name_body A \<Longrightarrow> A \<noteq> [] \<Longrightarrow> matches_at A s k \<Longrightarrow> i \<le> k \<Longrightarrow>
     \<exists>k'\<in>set (match_indices b s i). k' \<le> k \<and> k < k' + length A"
proof (induction b s i rule: match_indices.induct)
  case (1 b s i)
  have mk: "matcher b s k = Some (k + length A)"
    using "1.prems"(1,3) by (simp add: matcher_name_body)
  have kl: "k \<le> length s" using matches_at_range [OF "1.prems"(3)] by simp
  show ?case
  proof (cases "regexp_search b s i")
    case None
    from regexp_search_None [OF None "1.prems"(4) kl] mk show ?thesis by simp
  next
    case (Some p)
    obtain k0 e0 where p: "p = (k0, e0)" by (cases p)
    from Some p have srch: "regexp_search b s i = Some (k0, e0)" by simp
    note rs = regexp_search_Some [OF srch]
    from rs "1.prems"(1) have e0: "e0 = k0 + length A"
      by (auto simp: matcher_name_body split: if_splits)
    with "1.prems"(2) have lt: "k0 < e0" by simp
    have k0k: "k0 \<le> k"
    proof (rule ccontr)
      assume "\<not> k0 \<le> k"
      with rs "1.prems"(4) have "matcher b s k = None" by simp
      with mk show False by simp
    qed
    have mi: "match_indices b s i = k0 # match_indices b s e0"
      using srch lt by (simp add: match_indices.simps [of b s i])
    show ?thesis
    proof (cases "k < e0")
      case True
      with k0k e0 mi show ?thesis by simp
    next
      case False
      then have "e0 \<le> k" by simp
      from "1.IH" [OF srch refl lt "1.prems"(1) "1.prems"(2) "1.prems"(3) this] mi
      show ?thesis by auto
    qed
  qed
qed

lemma name_indices_covers:
  "A \<noteq> [] \<Longrightarrow> matches_at A s k \<Longrightarrow> \<exists>k'\<in>set (name_indices A s). k' \<le> k \<and> k < k' + length A"
  by (simp add: name_indices_def match_indices_covers)

lemma name_indices_first:
  assumes "A \<noteq> []" "matches_at A s k" "\<And>j. j < k \<Longrightarrow> \<not> matches_at A s j"
  shows "name_indices A s \<noteq> [] \<and> hd (name_indices A s) = k"
proof -
  from name_indices_covers [OF assms(1,2)] obtain k' where
    k': "k' \<in> set (name_indices A s)" "k' \<le> k" by auto
  from name_indices_matches [OF k'(1)] assms(3) [of k'] k'(2) have "k' = k" by (cases "k' < k") auto
  with k' have mem: "k \<in> set (name_indices A s)" by simp
  then obtain h t where ht: "name_indices A s = h # t" by (cases "name_indices A s") auto
  have "sorted_wrt (<) (name_indices A s)" by (simp add: name_indices_def match_indices_sorted)
  with ht have le: "\<forall>x\<in>set t. h < x" by simp
  have "h \<in> set (name_indices A s)" using ht by simp
  from name_indices_matches [OF this] assms(3) [of h] have "\<not> h < k" by auto
  moreover from mem ht le have "h \<le> k" by auto
  ultimately have "h = k" by simp
  with ht show ?thesis by simp
qed

text \<open>
  Claim C1. For every record with a non-empty name \<open>A\<close>, whatever characters it holds,
  the expression built from it is the literal \<open>A\<close> between two word-boundary
  assertions. A document in which \<open>A\<close> stands nowhere (one with a character
  substituted at a metacharacter and no other occurrence, say) yields no match for the
  record, and so does a document in which \<open>A\<close> stands nowhere between two word
  boundaries. An occurrence of \<open>A\<close> between two word boundaries lies within a
  published match, or begins within a match published for an earlier occurrence; the
  leftmost such occurrence is the first match published, with the range of the
  occurrence. The code departs from the claim for a name that ends or begins with a
  character that is no word character: after the closing parenthesis of \<open>a.b()\<close> the
  assertion \<open>\b\<close> holds only before a word character, so the document \<open>a.b()\<close>, which
  contains the name exactly, yields no match.
\<close>

theorem literal_name_matching:
  fixes dep :: DeprecatedAPI and doc :: TextDocument and ed :: editor_state and k :: nat
  defines "A \<equiv> apiName dep" and "s \<equiv> getText doc"
  defines "stands \<equiv> \<lambda>j. take (length A) (drop j s) = A"
  defines "bounded \<equiv> \<lambda>j. at_word_boundary s j \<and> at_word_boundary s (j + length A)"
  defines "nothing \<equiv>
     \<lparr>collection = (collection ed)(uri doc \<mapsto> []),
      decorations = (if visible doc then (decorations ed)(uri doc \<mapsto> []) else decorations ed)\<rparr>"
  shows "new_RegExp (pattern_source A) =
           Some \<lparr>body = WordBoundary # map PatternCharacter A @ [WordBoundary], lastIndex = 0\<rparr>
       \<and> (A \<noteq> [] \<and> (\<forall>j. \<not> stands j) \<longrightarrow> checkForDeprecations doc [dep] ed = Some (Inr nothing))
       \<and> (A \<noteq> [] \<and> (\<forall>j. \<not> (stands j \<and> bounded j)) \<longrightarrow>
            checkForDeprecations doc [dep] ed = Some (Inr nothing))
       \<and> (A \<noteq> [] \<and> stands k \<and> bounded k \<longrightarrow>
            (\<exists>ed' ds. checkForDeprecations doc [dep] ed = Some (Inr ed')
               \<and> collection ed' (uri doc) = Some ds
               \<and> list_ex (\<lambda>d. fst (diag_range d) \<le> k \<and> k < snd (diag_range d)) ds
               \<and> ((\<forall>j<k. \<not> (stands j \<and> bounded j)) \<longrightarrow>
                    ds \<noteq> [] \<and> diag_range (hd ds) = (k, k + length A))))"
proof -
  have m: "\<And>j. matches_at A s j \<longleftrightarrow> stands j \<and> bounded j"
    by (auto simp: matches_at_def stands_def bounded_def)
  have run: "A \<noteq> [] \<Longrightarrow> checkForDeprecations doc [dep] ed =
      Some (Inr (publish doc \<lparr>diagnostics = map (make_diagnostic dep) (name_indices A s),
                               decorationOptions = map (make_decoration dep) (name_indices A s)\<rparr> ed))"
    by (simp add: checkForDeprecations_eq all_diagnostics_def all_decorations_def A_def s_def)
  have none: "A \<noteq> [] \<Longrightarrow> (\<forall>j. \<not> (stands j \<and> bounded j)) \<Longrightarrow>
      checkForDeprecations doc [dep] ed = Some (Inr nothing)"
  proof -
    assume ne: "A \<noteq> []" and "\<forall>j. \<not> (stands j \<and> bounded j)"
    then have "name_indices A s = []" by (intro name_indices_none) (simp add: m)
    with run [OF ne] show ?thesis by (simp add: publish_def nothing_def)
  qed
  have 1: "new_RegExp (pattern_source A) =
           Some \<lparr>body = WordBoundary # map PatternCharacter A @ [WordBoundary], lastIndex = 0\<rparr>"
    by (simp add: new_RegExp_name name_body_def)
  have 2: "A \<noteq> [] \<and> (\<forall>j. \<not> stands j) \<longrightarrow> checkForDeprecations doc [dep] ed = Some (Inr nothing)"
    using none by blast
  have 3: "A \<noteq> [] \<and> (\<forall>j. \<not> (stands j \<and> bounded j)) \<longrightarrow>
            checkForDeprecations doc [dep] ed = Some (Inr nothing)"
    using none by blast
  have 4: "A \<noteq> [] \<and> stands k \<and> bounded k \<longrightarrow>
            (\<exists>ed' ds. checkForDeprecations doc [dep] ed = Some (Inr ed')
               \<and> collection ed' (uri doc) = Some ds
               \<and> list_ex (\<lambda>d. fst (diag_range d) \<le> k \<and> k < snd (diag_range d)) ds
               \<and> ((\<forall>j<k. \<not> (stands j \<and> bounded j)) \<longrightarrow>
                    ds \<noteq> [] \<and> diag_range (hd ds) = (k, k + length A)))"
  proof
    assume a: "A \<noteq> [] \<and> stands k \<and> bounded k"
    then have ne: "A \<noteq> []" and mk: "matches_at A s k" by (simp_all add: m)
    let ?ds = "map (make_diagnostic dep) (name_indices A s)"
    let ?ed = "publish doc \<lparr>diagnostics = ?ds,
                             decorationOptions = map (make_decoration dep) (name_indices A s)\<rparr> ed"
    have c: "collection ?ed (uri doc) = Some ?ds" by (simp add: publish_def)
    from name_indices_covers [OF ne mk] obtain k' where
      "k' \<in> set (name_indices A s)" "k' \<le> k" "k < k' + length A" by auto
    then have cov: "list_ex (\<lambda>d. fst (diag_range d) \<le> k \<and> k < snd (diag_range d)) ?ds"
      by (auto simp: list_ex_iff make_diagnostic_def A_def)
    have first: "(\<forall>j<k. \<not> (stands j \<and> bounded j)) \<longrightarrow>
                    ?ds \<noteq> [] \<and> diag_range (hd ?ds) = (k, k + length A)"
    proof
      assume "\<forall>j<k. \<not> (stands j \<and> bounded j)"
      then have "\<And>j. j < k \<Longrightarrow> \<not> matches_at A s j" by (simp add: m)
      from name_indices_first [OF ne mk this]
      show "?ds \<noteq> [] \<and> diag_range (hd ?ds) = (k, k + length A)"
        by (simp add: hd_map make_diagnostic_def A_def)
    qed
    from run [OF ne] c cov first
    show "\<exists>ed' ds. checkForDeprecations doc [dep] ed = Some (Inr ed')
               \<and> collection ed' (uri doc) = Some ds
               \<and> list_ex (\<lambda>d. fst (diag_range d) \<le> k \<and> k < snd (diag_range d)) ds
               \<and> ((\<forall>j<k. \<not> (stands j \<and> bounded j)) \<longrightarrow>
                    ds \<noteq> [] \<and> diag_range (hd ds) = (k, k + length A))"
      by blast
  qed
  from 1 2 3 4 show ?thesis by blast
qed

text \<open>
  For the name \<open>a.b()\<close>: the document \<open>a.b()\<close> yields no match; the document \<open>a.b()x\<close>
  yields a match with the range \<open>(0, 5)\<close>; the document \<open>axb()x\<close>, with the dot
  replaced, yields no match.
\<close>

theorem literal_name_matching_witness:
  "checkForDeprecations \<lparr>uri = js ''a.js'', getText = js ''a.b()'', visible = True\<rparr>
     [\<lparr>apiName = js ''a.b()'', changeType = js ''Deprecated'', description = js ''gone''\<rparr>]
     \<lparr>collection = Map.empty, decorations = Map.empty\<rparr>
   = Some (Inr \<lparr>collection = [js ''a.js'' \<mapsto> []], decorations = [js ''a.js'' \<mapsto> []]\<rparr>)
   \<and> (\<exists>ed' ds.
        checkForDeprecations \<lparr>uri = js ''a.js'', getText = js ''a.b()x'', visible = True\<rparr>
          [\<lparr>apiName = js ''a.b()'', changeType = js ''Deprecated'', description = js ''gone''\<rparr>]
          \<lparr>collection = Map.empty, decorations = Map.empty\<rparr> = Some (Inr ed')
        \<and> collection ed' (js ''a.js'') = Some ds \<and> ds \<noteq> [] \<and> diag_range (hd ds) = (0, 5))
   \<and> checkForDeprecations \<lparr>uri = js ''a.js'', getText = js ''axb()x'', visible = True\<rparr>
     [\<lparr>apiName = js ''a.b()'', changeType = js ''Deprecated'', description = js ''gone''\<rparr>]
     \<lparr>collection = Map.empty, decorations = Map.empty\<rparr>
   = Some (Inr \<lparr>collection = [js ''a.js'' \<mapsto> []], decorations = [js ''a.js'' \<mapsto> []]\<rparr>)"
proof -
  let ?A = "js ''a.b()''"
  let ?dep = "\<lparr>apiName = ?A, changeType = js ''Deprecated'', description = js ''gone''\<rparr>"
  let ?ed = "\<lparr>collection = Map.empty, decorations = Map.empty\<rparr>"
  let ?doc1 = "\<lparr>uri = js ''a.js'', getText = js ''a.b()'', visible = True\<rparr>"
  let ?doc2 = "\<lparr>uri = js ''a.js'', getText = js ''a.b()x'', visible = True\<rparr>"
  let ?doc3 = "\<lparr>uri = js ''a.js'', getText = js ''axb()x'', visible = True\<rparr>"
  have len: "length ?A = 5" and ne: "?A \<noteq> []" by (simp_all add: js_def)
  have h1: "\<forall>j. \<not> (take (length ?A) (drop j (js ''a.b()'')) = ?A \<and>
                   at_word_boundary (js ''a.b()'') j \<and>
                   at_word_boundary (js ''a.b()'') (j + length ?A))"
  proof (intro allI notI)
    fix j
    assume h: "take (length ?A) (drop j (js ''a.b()'')) = ?A \<and>
                   at_word_boundary (js ''a.b()'') j \<and>
                   at_word_boundary (js ''a.b()'') (j + length ?A)"
    then have "length (take (length ?A) (drop j (js ''a.b()''))) = length ?A" by simp
    then have "j = 0" by (simp add: js_def)
    with h have "at_word_boundary (js ''a.b()'') 5" by (simp add: len)
    then show False
      by (simp add: at_word_boundary_def is_word_char_def word_character_def js_def)
  qed
  have h2: "take (length ?A) (drop 0 (js ''a.b()x'')) = ?A \<and>
            at_word_boundary (js ''a.b()x'') 0 \<and> at_word_boundary (js ''a.b()x'') (0 + length ?A)"
    by (simp add: at_word_boundary_def is_word_char_def word_character_def js_def)
  have h3: "\<forall>j. take (length ?A) (drop j (js ''axb()x'')) \<noteq> ?A"
  proof (intro allI notI)
    fix j
    assume h: "take (length ?A) (drop j (js ''axb()x'')) = ?A"
    then have "length (take (length ?A) (drop j (js ''axb()x''))) = length ?A" by simp
    then have "j = 0 \<or> j = 1" by (auto simp: js_def)
    with h show False by (auto simp: js_def)
  qed
  from literal_name_matching [of ?dep ?doc1 ?ed] ne h1
  have a: "checkForDeprecations ?doc1 [?dep] ?ed
           = Some (Inr \<lparr>collection = [js ''a.js'' \<mapsto> []], decorations = [js ''a.js'' \<mapsto> []]\<rparr>)"
    by simp
  from literal_name_matching [of ?dep ?doc2 ?ed 0] ne h2
  have b: "\<exists>ed' ds. checkForDeprecations ?doc2 [?dep] ?ed = Some (Inr ed')
        \<and> collection ed' (js ''a.js'') = Some ds \<and> ds \<noteq> [] \<and> diag_range (hd ds) = (0, 5)"
    by (simp add: len) blast
  from literal_name_matching [of ?dep ?doc3 ?ed] ne h3
  have c: "checkForDeprecations ?doc3 [?dep] ?ed
           = Some (Inr \<lparr>collection = [js ''a.js'' \<mapsto> []], decorations = [js ''a.js'' \<mapsto> []]\<rparr>)"
    by simp
  from a b c show ?thesis by blast
qed

section \<open>C2: failures on the acquisition path\<close>

text \<open>
  Claim C2, as amended. On a run that finds no valid entry in the store: a transport
  failure of the fetch is thrown to the caller; when the fetch succeeds and no model is
  available, or the response holds no fenced block, an empty block, a block that does not
  parse, or \<open>null\<close>, the caller receives the empty catalog; an error thrown by the request
  to the model is thrown to the caller.
\<close>

theorem acquisition_failures:
  assumes "load_catalog w (catalog_file storagePath v) = None"
  shows "(\<forall>e. axios_get env url = Inl e \<longrightarrow>
            fst (getOrCreateReleaseNotes parseReleaseNotesWithCopilot env v url storagePath w) = Inl e)
       \<and> (\<forall>html. axios_get env url = Inr html \<and> chat_models env = 0 \<longrightarrow>
            fst (getOrCreateReleaseNotes parseReleaseNotesWithCopilot env v url storagePath w)
              = Inr (JArray []))
       \<and> (\<forall>html responseText.
            axios_get env url = Inr html \<and> 0 < chat_models env \<and>
            chat_response env (userQuery (join [0x0A, 0x0A] (parseHTMLwithCheerio env html)))
              = Inr responseText \<and>
            (jsonRegex_exec responseText = None \<or>
             (\<exists>m. jsonRegex_exec responseText = Some m \<and>
                  (m = [] \<or> JSON_parse m = None \<or> JSON_parse m = Some JNull))) \<longrightarrow>
            fst (getOrCreateReleaseNotes parseReleaseNotesWithCopilot env v url storagePath w)
              = Inr (JArray []))
       \<and> (\<forall>html e.
            axios_get env url = Inr html \<and> 0 < chat_models env \<and>
            chat_response env (userQuery (join [0x0A, 0x0A] (parseHTMLwithCheerio env html))) = Inl e \<longrightarrow>
            fst (getOrCreateReleaseNotes parseReleaseNotesWithCopilot env v url storagePath w) = Inl e)"
proof (intro conjI allI impI)
  fix e assume "axios_get env url = Inl e"
  with assms show "fst (getOrCreateReleaseNotes parseReleaseNotesWithCopilot env v url storagePath w) = Inl e"
    by (simp add: acquire_miss_fetch_fails)
next
  fix html assume "axios_get env url = Inr html \<and> chat_models env = 0"
  with assms show "fst (getOrCreateReleaseNotes parseReleaseNotesWithCopilot env v url storagePath w)
              = Inr (JArray [])"
    by (simp add: acquire_miss_parse(1) parseReleaseNotesWithCopilot_no_model)
next
  fix html responseText
  assume a: "axios_get env url = Inr html \<and> 0 < chat_models env \<and>
            chat_response env (userQuery (join [0x0A, 0x0A] (parseHTMLwithCheerio env html)))
              = Inr responseText \<and>
            (jsonRegex_exec responseText = None \<or>
             (\<exists>m. jsonRegex_exec responseText = Some m \<and>
                  (m = [] \<or> JSON_parse m = None \<or> JSON_parse m = Some JNull)))"
  then have "records_of_response responseText = JArray []"
    by (auto simp: records_of_response_def)
  with a assms show "fst (getOrCreateReleaseNotes parseReleaseNotesWithCopilot env v url storagePath w)
              = Inr (JArray [])"
    by (simp add: acquire_miss_parse(1) parseReleaseNotesWithCopilot_response)
next
  fix html e
  assume "axios_get env url = Inr html \<and> 0 < chat_models env \<and>
            chat_response env (userQuery (join [0x0A, 0x0A] (parseHTMLwithCheerio env html))) = Inl e"
  with assms show "fst (getOrCreateReleaseNotes parseReleaseNotesWithCopilot env v url storagePath w) = Inl e"
    by (simp add: acquire_miss_parse(1) parseReleaseNotesWithCopilot_throws)
qed

theorem acquisition_failures_witness:
  "fst (getOrCreateReleaseNotes parseReleaseNotesWithCopilot
          \<lparr>axios_get = \<lambda>url. Inr (js ''<h3>Removed</h3><p>Foo</p>''), h3_sections = \<lambda>html. [],
           chat_models = 1, chat_response = \<lambda>prompt. Inr (js ''no deprecations'')\<rparr>
          (js ''132'') (js ''https://developer.chrome.com/release-notes/132'') (js ''/storage'')
          \<lparr>files = Map.empty, directories = {}, calls = []\<rparr>) = Inr (JArray [])
   \<and> fst (getOrCreateReleaseNotes parseReleaseNotesWithCopilot
          \<lparr>axios_get = \<lambda>url. Inr (js ''<h3>Removed</h3><p>Foo</p>''), h3_sections = \<lambda>html. [],
           chat_models = 0, chat_response = \<lambda>prompt. Inl LanguageModelError\<rparr>
          (js ''132'') (js ''https://developer.chrome.com/release-notes/132'') (js ''/storage'')
          \<lparr>files = Map.empty, directories = {}, calls = []\<rparr>) = Inr (JArray [])"
proof -
  let ?w = "\<lparr>files = Map.empty, directories = {}, calls = []\<rparr>"
  let ?env1 = "\<lparr>axios_get = \<lambda>url. Inr (js ''<h3>Removed</h3><p>Foo</p>''), h3_sections = \<lambda>html. [],
           chat_models = 1, chat_response = \<lambda>prompt. Inr (js ''no deprecations'')\<rparr>"
  let ?env0 = "\<lparr>axios_get = \<lambda>url. Inr (js ''<h3>Removed</h3><p>Foo</p>''), h3_sections = \<lambda>html. [],
           chat_models = 0, chat_response = \<lambda>prompt. Inl LanguageModelError\<rparr>"
  have miss: "load_catalog ?w (catalog_file (js ''/storage'') (js ''132'')) = None"
    by (simp add: load_catalog_def)
  from acquisition_failures [OF miss, of ?env1 "js ''https://developer.chrome.com/release-notes/132''"]
    no_fenced_block
  have a: "fst (getOrCreateReleaseNotes parseReleaseNotesWithCopilot ?env1 (js ''132'')
                 (js ''https://developer.chrome.com/release-notes/132'') (js ''/storage'') ?w)
             = Inr (JArray [])" by simp
  from acquisition_failures [OF miss, of ?env0 "js ''https://developer.chrome.com/release-notes/132''"]
  have b: "fst (getOrCreateReleaseNotes parseReleaseNotesWithCopilot ?env0 (js ''132'')
                 (js ''https://developer.chrome.com/release-notes/132'') (js ''/storage'') ?w)
             = Inr (JArray [])" by simp
  from a b show ?thesis by blast
qed

text \<open>
  The claim as stated fails: when \<^verbatim>\<open>axios.get\<close> rejects, the caller of the Acquirer
  observes the error.
\<close>

theorem fetch_failure_counterexample:
  "fst (getOrCreateReleaseNotes parseReleaseNotesWithCopilot
          \<lparr>axios_get = \<lambda>url. Inl AxiosError, h3_sections = \<lambda>html. [],
           chat_models = 1, chat_response = \<lambda>prompt. Inr (js ''no deprecations'')\<rparr>
          (js ''132'') (js ''https://developer.chrome.com/release-notes/132'') (js ''/storage'')
          \<lparr>files = Map.empty, directories = {}, calls = []\<rparr>) = Inl AxiosError"
  by (simp add: getOrCreateReleaseNotes_def Let_def load_catalog_def ensure_directory_def
      fetchReleaseNotesHTML_def)

section \<open>C3: the empty catalog and the store\<close>

text \<open>
  Claim C3, as amended. On a run that finds no valid entry in the store and whose fetch
  succeeds: when the text generation yields zero records (no model, or a response that
  gives the empty array), the Acquirer returns the empty catalog and writes it to the
  store as \<open>[]\<close>, and every later run for that version returns the empty catalog from
  the store and changes nothing (no fetch, no inference); when the request to the model
  throws, the error is thrown and nothing is written. With the elided copy of the
  inference step the empty catalog is returned and written as well.
\<close>

theorem empty_catalog_is_persisted:
  assumes "load_catalog w (catalog_file storagePath v) = None"
    and "axios_get env url = Inr html"
  shows "((chat_models env = 0 \<or>
           (\<exists>responseText.
              chat_response env (userQuery (join [0x0A, 0x0A] (parseHTMLwithCheerio env html)))
                = Inr responseText \<and> records_of_response responseText = JArray [])) \<longrightarrow>
          fst (getOrCreateReleaseNotes parseReleaseNotesWithCopilot env v url storagePath w)
            = Inr (JArray [])
          \<and> files (snd (getOrCreateReleaseNotes parseReleaseNotesWithCopilot env v url storagePath w))
              (catalog_file storagePath v) = Some (js ''[]'')
          \<and> (\<forall>parseNotes env' url'.
                getOrCreateReleaseNotes parseNotes env' v url' storagePath
                  (snd (getOrCreateReleaseNotes parseReleaseNotesWithCopilot env v url storagePath w))
                = (Inr (JArray []),
                   snd (getOrCreateReleaseNotes parseReleaseNotesWithCopilot env v url storagePath w))))
       \<and> (\<forall>e. 0 < chat_models env \<and>
              chat_response env (userQuery (join [0x0A, 0x0A] (parseHTMLwithCheerio env html))) = Inl e \<longrightarrow>
              fst (getOrCreateReleaseNotes parseReleaseNotesWithCopilot env v url storagePath w) = Inl e
              \<and> files (snd (getOrCreateReleaseNotes parseReleaseNotesWithCopilot env v url storagePath w))
                  = files w)
       \<and> fst (getOrCreateReleaseNotes parseReleaseNotesWithCopilot_elided env v url storagePath w)
            = Inr (JArray [])
       \<and> files (snd (getOrCreateReleaseNotes parseReleaseNotesWithCopilot_elided env v url storagePath w))
            (catalog_file storagePath v) = Some (js ''[]'')"
proof (intro conjI allI impI)
  let ?run = "getOrCreateReleaseNotes parseReleaseNotesWithCopilot env v url storagePath w"
  let ?w2 = "(ensure_directory storagePath w)\<lparr>calls := calls w @ [HttpGet url]\<rparr>"
  let ?p = "parseReleaseNotesWithCopilot env (parseHTMLwithCheerio env html) ?w2"
  note fst_run = acquire_miss_parse(1) [OF assms]
  note files_run = acquire_miss_parse(2) [OF assms]
  {
    assume zero: "chat_models env = 0 \<or>
           (\<exists>responseText.
              chat_response env (userQuery (join [0x0A, 0x0A] (parseHTMLwithCheerio env html)))
                = Inr responseText \<and> records_of_response responseText = JArray [])"
    have p: "fst ?p = Inr (JArray [])"
    proof (cases "chat_models env = 0")
      case True
      then show ?thesis by (simp add: parseReleaseNotesWithCopilot_no_model)
    next
      case False
      with zero obtain responseText where
        "chat_response env (userQuery (join [0x0A, 0x0A] (parseHTMLwithCheerio env html))) = Inr responseText"
        "records_of_response responseText = JArray []" by blast
      with False show ?thesis by (simp add: parseReleaseNotesWithCopilot_response)
    qed
    show r1: "fst ?run = Inr (JArray [])" using fst_run p by simp
    show r2: "files (snd ?run) (catalog_file storagePath v) = Some (js ''[]'')"
      using files_run p by (simp add: empty_array_text utf8_text_empty_array)
    from r2 have l: "load_catalog (snd ?run) (catalog_file storagePath v) = Some (JArray [])"
      by (simp add: load_catalog_def empty_array_text)
    fix parseNotes :: "env \<Rightarrow> jsstring list \<Rightarrow> world \<Rightarrow> (exn + json) \<times> world"
    fix env' url'
    show "getOrCreateReleaseNotes parseNotes env' v url' storagePath (snd ?run) = (Inr (JArray []), snd ?run)"
      using getOrCreateReleaseNotes_hit [OF l] acquire_miss_directories [OF assms]
      by (simp add: ensure_directory_present)
  }
  {
    fix e
    assume a: "0 < chat_models env \<and>
              chat_response env (userQuery (join [0x0A, 0x0A] (parseHTMLwithCheerio env html))) = Inl e"
    then have p: "fst ?p = Inl e" by (simp add: parseReleaseNotesWithCopilot_throws)
    show "fst ?run = Inl e" using fst_run p by simp
    show "files (snd ?run) = files w" using files_run p by simp
  }
  show "fst (getOrCreateReleaseNotes parseReleaseNotesWithCopilot_elided env v url storagePath w)
            = Inr (JArray [])"
    using assms by (simp add: getOrCreateReleaseNotes_miss parseReleaseNotesWithCopilot_elided_def)
  show "files (snd (getOrCreateReleaseNotes parseReleaseNotesWithCopilot_elided env v url storagePath w))
            (catalog_file storagePath v) = Some (js ''[]'')"
    using assms
    by (simp add: getOrCreateReleaseNotes_miss parseReleaseNotesWithCopilot_elided_def
        save_catalog_def empty_array_text utf8_text_empty_array)
qed

theorem empty_catalog_is_persisted_witness:
  "fst (getOrCreateReleaseNotes parseReleaseNotesWithCopilot
          \<lparr>axios_get = \<lambda>url. Inr (js ''<h3>Removed</h3><p>Foo</p>''), h3_sections = \<lambda>html. [],
           chat_models = 0, chat_response = \<lambda>prompt. Inl LanguageModelError\<rparr>
          (js ''132'') (js ''https://developer.chrome.com/release-notes/132'') (js ''/storage'')
          \<lparr>files = Map.empty, directories = {}, calls = []\<rparr>) = Inr (JArray [])
   \<and> fst (getOrCreateReleaseNotes parseReleaseNotesWithCopilot
          \<lparr>axios_get = \<lambda>url. Inr (js ''<h3>Removed</h3><p>Foo</p>''), h3_sections = \<lambda>html. [],
           chat_models = 1, chat_response = \<lambda>prompt. Inr (js ''```json [] ```'')\<rparr>
          (js ''132'') (js ''https://developer.chrome.com/release-notes/132'') (js ''/storage'')
          (snd (getOrCreateReleaseNotes parseReleaseNotesWithCopilot
             \<lparr>axios_get = \<lambda>url. Inr (js ''<h3>Removed</h3><p>Foo</p>''), h3_sections = \<lambda>html. [],
              chat_models = 0, chat_response = \<lambda>prompt. Inl LanguageModelError\<rparr>
             (js ''132'') (js ''https://developer.chrome.com/release-notes/132'') (js ''/storage'')
             \<lparr>files = Map.empty, directories = {}, calls = []\<rparr>))) = Inr (JArray [])"
proof -
  let ?w = "\<lparr>files = Map.empty, directories = {}, calls = []\<rparr>"
  let ?env0 = "\<lparr>axios_get = \<lambda>url. Inr (js ''<h3>Removed</h3><p>Foo</p>''), h3_sections = \<lambda>html. [],
           chat_models = 0, chat_response = \<lambda>prompt. Inl LanguageModelError\<rparr>"
  have miss: "load_catalog ?w (catalog_file (js ''/storage'') (js ''132'')) = None"
    by (simp add: load_catalog_def)
  have fetch: "axios_get ?env0 (js ''https://developer.chrome.com/release-notes/132'')
                 = Inr (js ''<h3>Removed</h3><p>Foo</p>'')" by simp
  from empty_catalog_is_persisted [OF miss fetch] show ?thesis by simp
qed

text \<open>
  The claim as stated fails: with no model available the run returns the empty catalog
  and the store holds the entry \<open>[]\<close> for the version afterwards.
\<close>

theorem empty_catalog_counterexample:
  "fst (getOrCreateReleaseNotes parseReleaseNotesWithCopilot
          \<lparr>axios_get = \<lambda>url. Inr (js ''<h3>Removed</h3><p>Foo</p>''), h3_sections = \<lambda>html. [],
           chat_models = 0, chat_response = \<lambda>prompt. Inl LanguageModelError\<rparr>
          (js ''132'') (js ''https://developer.chrome.com/release-notes/132'') (js ''/storage'')
          \<lparr>files = Map.empty, directories = {}, calls = []\<rparr>) = Inr (JArray [])
   \<and> files (snd (getOrCreateReleaseNotes parseReleaseNotesWithCopilot
          \<lparr>axios_get = \<lambda>url. Inr (js ''<h3>Removed</h3><p>Foo</p>''), h3_sections = \<lambda>html. [],
           chat_models = 0, chat_response = \<lambda>prompt. Inl LanguageModelError\<rparr>
          (js ''132'') (js ''https://developer.chrome.com/release-notes/132'') (js ''/storage'')
          \<lparr>files = Map.empty, directories = {}, calls = []\<rparr>))
        (catalog_file (js ''/storage'') (js ''132'')) = Some (js ''[]'')"
  by (simp add: getOrCreateReleaseNotes_def Let_def load_catalog_def ensure_directory_def
      fetchReleaseNotesHTML_def parseReleaseNotesWithCopilot_def save_catalog_def empty_array_text
      utf8_text_empty_array)

section \<open>C4: word boundaries\<close>

lemma name_indices_Foo:
  "name_indices (js ''Foo'') (js ''x Foo y'') = [2]"
  "name_indices (js ''Foo'') (js ''FooBar'') = []"
  "name_indices (js ''Foo'') (js ''xFoo'') = []"
  "name_indices (js ''Foo'') (js ''FooFoo'') = []"
  "name_indices (js ''Foo'') (js ''Foo Foo'') = [0, 4]"
  by code_simp+

lemma js_Foo_nonempty: "js ''Foo'' \<noteq> []" by (simp add: js_def)

text \<open>
  Claim C4. For a record named \<open>Foo\<close>: the text \<open>x Foo y\<close> yields exactly one match,
  with the range \<open>(2, 5)\<close>; \<open>FooBar\<close>, \<open>xFoo\<close> and \<open>FooFoo\<close> yield none; \<open>Foo Foo\<close>
  yields exactly two matches, with the start offsets 0 and 4 and the ranges \<open>(0, 3)\<close>
  and \<open>(4, 7)\<close>. Each call returns; it sets the diagnostics of the document to one
  warning per match, in that order, with the range of the match, and, when the document
  is visible, its decorations to one decoration per match.
\<close>

theorem word_boundary_examples:
  fixes u ct ds :: jsstring and v :: bool and ed :: editor_state
  defines "foo \<equiv> \<lparr>apiName = js ''Foo'', changeType = ct, description = ds\<rparr>"
  defines "doc \<equiv> \<lambda>t. \<lparr>uri = u, getText = js t, visible = v\<rparr>"
  defines "shown \<equiv> \<lambda>rs.
     \<lparr>collection = (collection ed)(u \<mapsto>
        map (\<lambda>r. \<lparr>severity = Warning, diag_range = r,
                    message = js ''The API \"Foo\" is marked as '' @ ct @ js ''. '' @ ds,
                    source = js ''Chrome Deprecation Watcher''\<rparr>) rs),
      decorations = (if v then (decorations ed)(u \<mapsto>
        map (\<lambda>r. \<lparr>deco_range = r, contentText = js ''['' @ ct @ js ''] Foo''\<rparr>) rs)
                     else decorations ed)\<rparr>"
  shows "checkForDeprecations (doc ''x Foo y'') [foo] ed = Some (Inr (shown [(2, 5)]))
       \<and> checkForDeprecations (doc ''FooBar'') [foo] ed = Some (Inr (shown []))
       \<and> checkForDeprecations (doc ''xFoo'') [foo] ed = Some (Inr (shown []))
       \<and> checkForDeprecations (doc ''FooFoo'') [foo] ed = Some (Inr (shown []))
       \<and> checkForDeprecations (doc ''Foo Foo'') [foo] ed = Some (Inr (shown [(0, 3), (4, 7)]))"
proof -
  have len: "length (js ''Foo'') = 3" by (simp add: js_def)
  have msg: "js ''The API \"'' @ js ''Foo'' @ js ''\" is marked as '' @ ct @ js ''. '' @ ds
               = js ''The API \"Foo\" is marked as '' @ ct @ js ''. '' @ ds"
    "js ''['' @ ct @ js ''] '' @ js ''Foo'' = js ''['' @ ct @ js ''] Foo''"
    by (simp_all add: js_def)
  show ?thesis
    unfolding foo_def doc_def shown_def
    by (simp add: checkForDeprecations_eq all_diagnostics_def all_decorations_def name_indices_Foo
        js_Foo_nonempty publish_def make_diagnostic_def make_decoration_def diagMessage_def len msg)
qed

section \<open>C5: the parser of the response\<close>

lemma fenced_record:
  "jsonRegex_exec (js ''```json {\"apiName\": \"fetch\", \"changeType\": \"Removed\", \"description\": \"gone\"} ```'')
   = Some (js '' {\"apiName\": \"fetch\", \"changeType\": \"Removed\", \"description\": \"gone\"} '')"
  "JSON_parse (js '' {\"apiName\": \"fetch\", \"changeType\": \"Removed\", \"description\": \"gone\"} '')
   = Some (JObject [(js ''apiName'', JString (js ''fetch'')), (js ''changeType'', JString (js ''Removed'')),
                    (js ''description'', JString (js ''gone''))])"
  "js '' {\"apiName\": \"fetch\", \"changeType\": \"Removed\", \"description\": \"gone\"} '' \<noteq> []"
  "js ''length'' \<notin> fst ` set [(js ''apiName'', JString (js ''fetch'')),
                                   (js ''changeType'', JString (js ''Removed'')),
                                   (js ''description'', JString (js ''gone''))]"
  by code_simp+

text \<open>
  Claim C5. For a response of an available model, the parser returns the empty sequence
  when the response contains no fenced \<open>json\<close> block, and when the block is empty, does
  not parse as JSON, or parses to \<open>null\<close>. When the block parses to an array, the parser
  returns the array. The third case of the claim is where the code departs from it: when
  the block parses to an object that has no property \<open>length\<close>, which is no sequence,
  the parser returns that object and not the empty sequence.
\<close>

theorem parser_fallbacks:
  assumes "0 < chat_models env"
    and "chat_response env (userQuery (join [0x0A, 0x0A] sections)) = Inr responseText"
  shows "(\<not> (\<exists>pre m post. responseText = pre @ js ''```json'' @ m @ js ''```'' @ post) \<longrightarrow>
            fst (parseReleaseNotesWithCopilot env sections w) = Inr (JArray []))
       \<and> (\<forall>m. jsonRegex_exec responseText = Some m \<and>
                (m = [] \<or> JSON_parse m = None \<or> JSON_parse m = Some JNull) \<longrightarrow>
            fst (parseReleaseNotesWithCopilot env sections w) = Inr (JArray []))
       \<and> (\<forall>m records. jsonRegex_exec responseText = Some m \<and> m \<noteq> [] \<and>
                JSON_parse m = Some (JArray records) \<longrightarrow>
            fst (parseReleaseNotesWithCopilot env sections w) = Inr (JArray records))
       \<and> (\<forall>m members. jsonRegex_exec responseText = Some m \<and> m \<noteq> [] \<and>
                JSON_parse m = Some (JObject members) \<and> js ''length'' \<notin> fst ` set members \<longrightarrow>
            fst (parseReleaseNotesWithCopilot env sections w) = Inr (JObject members))"
proof -
  note r = parseReleaseNotesWithCopilot_response [OF assms]
  have 1: "\<not> (\<exists>pre m post. responseText = pre @ js ''```json'' @ m @ js ''```'' @ post) \<longrightarrow>
            fst (parseReleaseNotesWithCopilot env sections w) = Inr (JArray [])"
    using jsonRegex_exec_None_iff [of responseText] by (auto simp: r records_of_response_def)
  have 2: "\<forall>m. jsonRegex_exec responseText = Some m \<and>
                (m = [] \<or> JSON_parse m = None \<or> JSON_parse m = Some JNull) \<longrightarrow>
            fst (parseReleaseNotesWithCopilot env sections w) = Inr (JArray [])"
    by (auto simp: r records_of_response_def)
  have 3: "\<forall>m records. jsonRegex_exec responseText = Some m \<and> m \<noteq> [] \<and>
                JSON_parse m = Some (JArray records) \<longrightarrow>
            fst (parseReleaseNotesWithCopilot env sections w) = Inr (JArray records)"
    by (auto simp: r records_of_response_def)
  have 4: "\<forall>m members. jsonRegex_exec responseText = Some m \<and> m \<noteq> [] \<and>
                JSON_parse m = Some (JObject members) \<and> js ''length'' \<notin> fst ` set members \<longrightarrow>
            fst (parseReleaseNotesWithCopilot env sections w) = Inr (JObject members)"
    by (auto simp: r records_of_response_def parsed_length_throws_object)
  from 1 2 3 4 show ?thesis by blast
qed

text \<open>
  At the response that holds one record in place of a sequence of records the parser
  returns the record; at a response with no fenced block it returns the empty sequence.
\<close>

theorem parser_fallbacks_witness:
  "fst (parseReleaseNotesWithCopilot
          \<lparr>axios_get = \<lambda>url. Inl AxiosError, h3_sections = \<lambda>html. [], chat_models = 1,
           chat_response = \<lambda>prompt. Inr
             (js ''```json {\"apiName\": \"fetch\", \"changeType\": \"Removed\", \"description\": \"gone\"} ```'')\<rparr> []
          \<lparr>files = Map.empty, directories = {}, calls = []\<rparr>)
     = Inr (JObject [(js ''apiName'', JString (js ''fetch'')), (js ''changeType'', JString (js ''Removed'')),
                     (js ''description'', JString (js ''gone''))])
   \<and> fst (parseReleaseNotesWithCopilot
          \<lparr>axios_get = \<lambda>url. Inl AxiosError, h3_sections = \<lambda>html. [], chat_models = 1,
           chat_response = \<lambda>prompt. Inr (js ''no deprecations'')\<rparr> []
          \<lparr>files = Map.empty, directories = {}, calls = []\<rparr>)
     = Inr (JArray [])"
proof -
  let ?r = "js ''```json {\"apiName\": \"fetch\", \"changeType\": \"Removed\", \"description\": \"gone\"} ```''"
  let ?env = "\<lparr>axios_get = \<lambda>url. Inl AxiosError, h3_sections = \<lambda>html. [], chat_models = 1,
           chat_response = \<lambda>prompt. Inr ?r\<rparr>"
  let ?env' = "\<lparr>axios_get = \<lambda>url. Inl AxiosError, h3_sections = \<lambda>html. [], chat_models = 1,
           chat_response = \<lambda>prompt. Inr (js ''no deprecations'')\<rparr>"
  let ?w = "\<lparr>files = Map.empty, directories = {}, calls = []\<rparr>"
  have m1: "0 < chat_models ?env" by simp
  have r1: "chat_response ?env (userQuery (join [0x0A, 0x0A] [])) = Inr ?r" by simp
  from parser_fallbacks [OF m1 r1, of ?w] fenced_record
  have a: "fst (parseReleaseNotesWithCopilot ?env [] ?w)
             = Inr (JObject [(js ''apiName'', JString (js ''fetch'')),
                             (js ''changeType'', JString (js ''Removed'')),
                             (js ''description'', JString (js ''gone''))])" by blast
  have m2: "0 < chat_models ?env'" by simp
  have r2: "chat_response ?env' (userQuery (join [0x0A, 0x0A] [])) = Inr (js ''no deprecations'')"
    by simp
  from parser_fallbacks [OF m2 r2, of ?w] jsonRegex_exec_None_iff [of "js ''no deprecations''"]
    no_fenced_block
  have b: "fst (parseReleaseNotesWithCopilot ?env' [] ?w) = Inr (JArray [])" by simp
  from a b show ?thesis by blast
qed

section \<open>C6: cache first\<close>

text \<open>
  Claim C6. When the file of version \<open>v\<close> exists and its text parses to an array (a
  persisted catalog, whatever its elements), the Acquirer returns that array, makes no
  call to the fetch or to the inference capability (the trace of calls is unchanged), and
  leaves the files as they are; whatever the inference step and the outside would answer.
\<close>

theorem cache_first:
  assumes "files w (catalog_file storagePath v) = Some existingData"
    and "JSON_parse existingData = Some (JArray records)"
  shows "fst (getOrCreateReleaseNotes parseNotes env v url storagePath w) = Inr (JArray records)
       \<and> calls (snd (getOrCreateReleaseNotes parseNotes env v url storagePath w)) = calls w
       \<and> files (snd (getOrCreateReleaseNotes parseNotes env v url storagePath w)) = files w"
proof -
  from assms have "load_catalog w (catalog_file storagePath v) = Some (JArray records)"
    by (simp add: load_catalog_def)
  then show ?thesis by (simp add: getOrCreateReleaseNotes_hit)
qed

theorem cache_first_witness:
  "fst (getOrCreateReleaseNotes parseReleaseNotesWithCopilot
          \<lparr>axios_get = \<lambda>url. Inl AxiosError, h3_sections = \<lambda>html. [], chat_models = 0,
           chat_response = \<lambda>prompt. Inl LanguageModelError\<rparr>
          (js ''132'') (js ''https://developer.chrome.com/release-notes/132'') (js ''/storage'')
          \<lparr>files = [catalog_file (js ''/storage'') (js ''132'') \<mapsto>
                      JSON_stringify (catalog_json
                        [\<lparr>apiName = js ''Foo'', changeType = js ''Removed'', description = js ''gone''\<rparr>])],
           directories = {js ''/storage''}, calls = []\<rparr>)
     = Inr (catalog_json [\<lparr>apiName = js ''Foo'', changeType = js ''Removed'', description = js ''gone''\<rparr>])
   \<and> calls (snd (getOrCreateReleaseNotes parseReleaseNotesWithCopilot
          \<lparr>axios_get = \<lambda>url. Inl AxiosError, h3_sections = \<lambda>html. [], chat_models = 0,
           chat_response = \<lambda>prompt. Inl LanguageModelError\<rparr>
          (js ''132'') (js ''https://developer.chrome.com/release-notes/132'') (js ''/storage'')
          \<lparr>files = [catalog_file (js ''/storage'') (js ''132'') \<mapsto>
                      JSON_stringify (catalog_json
                        [\<lparr>apiName = js ''Foo'', changeType = js ''Removed'', description = js ''gone''\<rparr>])],
           directories = {js ''/storage''}, calls = []\<rparr>)) = []"
proof -
  let ?C = "[\<lparr>apiName = js ''Foo'', changeType = js ''Removed'', description = js ''gone''\<rparr>]"
  let ?w = "\<lparr>files = [catalog_file (js ''/storage'') (js ''132'') \<mapsto> JSON_stringify (catalog_json ?C)],
           directories = {js ''/storage''}, calls = []\<rparr>"
  have 1: "files ?w (catalog_file (js ''/storage'') (js ''132'')) = Some (JSON_stringify (catalog_json ?C))"
    by simp
  have 2: "JSON_parse (JSON_stringify (catalog_json ?C)) = Some (JArray (map record_json ?C))"
    using JSON_parse_stringify_catalog [of ?C] by (simp only: catalog_json_def)
  from cache_first [OF 1 2] show ?thesis by (simp add: catalog_json_def)
qed

section \<open>C7: the round trip of a catalog through the store\<close>

text \<open>
  Claim C7. For every version \<open>v\<close> and every sequence \<open>C\<close> of valid records (the three
  string fields, in any order), empty or not: after the catalog is written to the file of
  \<open>v\<close>, loading the file of \<open>v\<close> gives a catalog equal to \<open>C\<close>, and so does the next
  run of the Acquirer for \<open>v\<close>.
\<close>

theorem catalog_round_trip:
  assumes "list_all valid_record C"
  shows "load_catalog (save_catalog (catalog_file storagePath v) (JArray (map string_object C)) w)
           (catalog_file storagePath v) = Some (JArray (map string_object C))
       \<and> fst (getOrCreateReleaseNotes parseNotes env v url storagePath
              (save_catalog (catalog_file storagePath v) (JArray (map string_object C)) w))
           = Inr (JArray (map string_object C))"
proof -
  from assms have "list_all ordinary_keys C"
    by (induction C) (simp_all add: valid_record_ordinary)
  then have "load_catalog (save_catalog (catalog_file storagePath v) (JArray (map string_object C)) w)
     (catalog_file storagePath v) = Some (JArray (map string_object C))"
    by (simp add: load_save_catalog JSON_parse_stringify_objects utf8_text_array_of_objects)
  then show ?thesis by (simp add: getOrCreateReleaseNotes_hit)
qed

theorem catalog_round_trip_witness:
  "load_catalog
     (save_catalog (catalog_file (js ''/storage'') (js ''132''))
        (JArray [string_object [(js ''description'', js ''Use permissions API instead.''),
                                (js ''apiName'', js ''geolocation.watchPosition''),
                                (js ''changeType'', js ''Deprecated'')]])
        \<lparr>files = Map.empty, directories = {}, calls = []\<rparr>)
     (catalog_file (js ''/storage'') (js ''132''))
   = Some (JArray [string_object [(js ''description'', js ''Use permissions API instead.''),
                                  (js ''apiName'', js ''geolocation.watchPosition''),
                                  (js ''changeType'', js ''Deprecated'')]])"
proof -
  have "list_all valid_record [[(js ''description'', js ''Use permissions API instead.''),
                                (js ''apiName'', js ''geolocation.watchPosition''),
                                (js ''changeType'', js ''Deprecated'')]]"
    using names_distinct by (auto simp: valid_record_def)
  from catalog_round_trip [OF this] show ?thesis by simp
qed

section \<open>C8: determinism and order of the results\<close>

lemma publish_idem: "publish doc st (publish doc st ed) = publish doc st ed"
  by (simp add: publish_def)

lemma name_indices_sorted: "sorted_wrt (<) (name_indices A s)"
  by (simp add: name_indices_def match_indices_sorted)

lemma all_diagnostics_grouped:
  "\<exists>groups. all_diagnostics s deps = concat groups \<and>
     list_all2 (\<lambda>dep g. \<exists>ks. sorted_wrt (<) ks \<and> g = map (make_diagnostic dep) ks) deps groups"
proof -
  let ?groups = "map (\<lambda>dep. map (make_diagnostic dep) (name_indices (apiName dep) s)) deps"
  have "list_all2 (\<lambda>dep g. \<exists>ks. sorted_wrt (<) ks \<and> g = map (make_diagnostic dep) ks) deps ?groups"
    by (induction deps) (auto intro: name_indices_sorted)
  then show ?thesis unfolding all_diagnostics_def by blast
qed

text \<open>
  Claim C8. When a call on a document and a catalog returns, a second call on the state
  it left returns the same state; any call on a document with the same text and the same
  catalog, from any state of the editor, publishes the same sequence of diagnostics; and
  that sequence is the concatenation, in catalog order, of one group per record, each
  group in strictly ascending start offset.
\<close>

theorem deterministic_grouped_results:
  assumes "checkForDeprecations doc deps ed = Some (Inr ed')"
  shows "checkForDeprecations doc deps ed' = Some (Inr ed')
       \<and> (\<forall>doc2 ed2. getText doc2 = getText doc \<longrightarrow>
            (\<exists>ed2'. checkForDeprecations doc2 deps ed2 = Some (Inr ed2') \<and>
                    collection ed2' (uri doc2) = collection ed' (uri doc)))
       \<and> (\<exists>groups. collection ed' (uri doc) = Some (concat groups) \<and>
            list_all2 (\<lambda>dep g. \<exists>ks. sorted_wrt (<) ks \<and> g = map (make_diagnostic dep) ks)
              deps groups)"
proof -
  let ?st = "\<lparr>diagnostics = all_diagnostics (getText doc) deps,
              decorationOptions = all_decorations (getText doc) deps\<rparr>"
  from assms have fin: "\<not> (\<exists>dep\<in>set deps. apiName dep = [] \<and> has_word_character (getText doc))"
    by (auto simp: checkForDeprecations_eq split: if_splits)
  from checkForDeprecations_returns [OF assms] have ed': "ed' = publish doc ?st ed" .
  have 1: "checkForDeprecations doc deps ed' = Some (Inr ed')"
    using fin by (simp add: checkForDeprecations_eq ed' publish_idem)
  have 2: "\<forall>doc2 ed2. getText doc2 = getText doc \<longrightarrow>
            (\<exists>ed2'. checkForDeprecations doc2 deps ed2 = Some (Inr ed2') \<and>
                    collection ed2' (uri doc2) = collection ed' (uri doc))"
    using fin by (simp add: checkForDeprecations_eq ed' publish_def)
  have c: "collection ed' (uri doc) = Some (all_diagnostics (getText doc) deps)"
    by (simp add: ed' publish_def)
  from all_diagnostics_grouped [of "getText doc" deps] c
  have 3: "\<exists>groups. collection ed' (uri doc) = Some (concat groups) \<and>
            list_all2 (\<lambda>dep g. \<exists>ks. sorted_wrt (<) ks \<and> g = map (make_diagnostic dep) ks)
              deps groups" by simp
  from 1 2 3 show ?thesis by blast
qed

theorem deterministic_grouped_results_witness:
  "checkForDeprecations \<lparr>uri = js ''a.js'', getText = js ''Foo Foo'', visible = True\<rparr>
     [\<lparr>apiName = js ''Foo'', changeType = js ''Removed'', description = js ''gone''\<rparr>]
     \<lparr>collection = Map.empty, decorations = Map.empty\<rparr>
     = Some (Inr \<lparr>collection = [js ''a.js'' \<mapsto>
                      map (make_diagnostic \<lparr>apiName = js ''Foo'', changeType = js ''Removed'',
                                             description = js ''gone''\<rparr>) [0, 4]],
                   decorations = [js ''a.js'' \<mapsto>
                      map (make_decoration \<lparr>apiName = js ''Foo'', changeType = js ''Removed'',
                                             description = js ''gone''\<rparr>) [0, 4]]\<rparr>)
   \<and> checkForDeprecations \<lparr>uri = js ''a.js'', getText = js ''Foo Foo'', visible = True\<rparr>
     [\<lparr>apiName = js ''Foo'', changeType = js ''Removed'', description = js ''gone''\<rparr>]
     \<lparr>collection = [js ''a.js'' \<mapsto>
                      map (make_diagnostic \<lparr>apiName = js ''Foo'', changeType = js ''Removed'',
                                             description = js ''gone''\<rparr>) [0, 4]],
                   decorations = [js ''a.js'' \<mapsto>
                      map (make_decoration \<lparr>apiName = js ''Foo'', changeType = js ''Removed'',
                                             description = js ''gone''\<rparr>) [0, 4]]\<rparr>
     = Some (Inr \<lparr>collection = [js ''a.js'' \<mapsto>
                      map (make_diagnostic \<lparr>apiName = js ''Foo'', changeType = js ''Removed'',
                                             description = js ''gone''\<rparr>) [0, 4]],
                   decorations = [js ''a.js'' \<mapsto>
                      map (make_decoration \<lparr>apiName = js ''Foo'', changeType = js ''Removed'',
                                             description = js ''gone''\<rparr>) [0, 4]]\<rparr>)"
proof -
  let ?foo = "\<lparr>apiName = js ''Foo'', changeType = js ''Removed'', description = js ''gone''\<rparr>"
  let ?doc = "\<lparr>uri = js ''a.js'', getText = js ''Foo Foo'', visible = True\<rparr>"
  let ?ed = "\<lparr>collection = Map.empty, decorations = Map.empty\<rparr>"
  let ?ed' = "\<lparr>collection = [js ''a.js'' \<mapsto> map (make_diagnostic ?foo) [0, 4]],
              decorations = [js ''a.js'' \<mapsto> map (make_decoration ?foo) [0, 4]]\<rparr>"
  have ne: "js ''Foo'' \<noteq> []" by (simp add: js_def)
  have run: "checkForDeprecations ?doc [?foo] ?ed = Some (Inr ?ed')"
    by (simp add: checkForDeprecations_eq all_diagnostics_def all_decorations_def
        name_indices_Foo ne publish_def)
  from deterministic_grouped_results [OF run]
  have "checkForDeprecations ?doc [?foo] ?ed' = Some (Inr ?ed')" by blast
  with run show ?thesis by blast
qed

section \<open>C9: ranges of the matches\<close>

lemma all_diagnostics_member:
  "d \<in> set (all_diagnostics s deps) \<Longrightarrow>
     \<exists>dep\<in>set deps. \<exists>k. matches_at (apiName dep) s k \<and> d = make_diagnostic dep k"
  by (auto simp: all_diagnostics_def dest: name_indices_matches)

text \<open>
  Claim C9. Every diagnostic the call publishes for the document belongs to a record of
  the catalog and its range \<open>(startOffset, endOffset)\<close> satisfies
  \<open>0 \<le> startOffset\<close>, \<open>endOffset = startOffset + length apiName \<le> length text\<close>, and the
  text between the two offsets is exactly \<open>apiName\<close>.
\<close>

theorem match_range_invariant:
  assumes "checkForDeprecations doc deps ed = Some (Inr ed')"
    and "collection ed' (uri doc) = Some ds"
    and "d \<in> set ds"
  shows "\<exists>dep\<in>set deps.
           message d = diagMessage dep \<and>
           (case diag_range d of (startOffset, endOffset) \<Rightarrow>
              0 \<le> startOffset \<and>
              endOffset = startOffset + length (apiName dep) \<and>
              endOffset \<le> length (getText doc) \<and>
              take (endOffset - startOffset) (drop startOffset (getText doc)) = apiName dep)"
proof -
  from checkForDeprecations_returns [OF assms(1)] assms(2)
  have "ds = all_diagnostics (getText doc) deps" by (simp add: publish_def)
  with assms(3) all_diagnostics_member obtain dep k where
    dep: "dep \<in> set deps" and m: "matches_at (apiName dep) (getText doc) k"
    and d: "d = make_diagnostic dep k" by blast
  from matches_at_range [OF m] d dep show ?thesis
    by (intro bexI [of _ dep]) (simp_all add: make_diagnostic_def)
qed

lemma name_indices_geo:
  "name_indices (js ''geolocation.watchPosition'') (js ''navigator.geolocation.watchPosition(cb);'') = [10]"
  by code_simp

theorem match_range_invariant_witness:
  "\<exists>dep\<in>set [\<lparr>apiName = js ''geolocation.watchPosition'', changeType = js ''Deprecated'',
                 description = js ''Use permissions API instead.''\<rparr>].
      message (make_diagnostic \<lparr>apiName = js ''geolocation.watchPosition'', changeType = js ''Deprecated'',
                 description = js ''Use permissions API instead.''\<rparr> 10) = diagMessage dep \<and>
      (case diag_range (make_diagnostic \<lparr>apiName = js ''geolocation.watchPosition'', changeType = js ''Deprecated'',
                 description = js ''Use permissions API instead.''\<rparr> 10) of
         (startOffset, endOffset) \<Rightarrow>
           0 \<le> startOffset \<and>
           endOffset = startOffset + length (apiName dep) \<and>
           endOffset \<le> length (js ''navigator.geolocation.watchPosition(cb);'') \<and>
           take (endOffset - startOffset) (drop startOffset (js ''navigator.geolocation.watchPosition(cb);''))
             = apiName dep)"
proof -
  let ?dep = "\<lparr>apiName = js ''geolocation.watchPosition'', changeType = js ''Deprecated'',
                 description = js ''Use permissions API instead.''\<rparr>"
  let ?doc = "\<lparr>uri = js ''a.js'', getText = js ''navigator.geolocation.watchPosition(cb);'', visible = True\<rparr>"
  let ?ed = "\<lparr>collection = Map.empty, decorations = Map.empty\<rparr>"
  let ?st = "\<lparr>diagnostics = [make_diagnostic ?dep 10], decorationOptions = [make_decoration ?dep 10]\<rparr>"
  have ne: "js ''geolocation.watchPosition'' \<noteq> []" by (simp add: js_def)
  have run: "checkForDeprecations ?doc [?dep] ?ed = Some (Inr (publish ?doc ?st ?ed))"
    by (simp add: checkForDeprecations_eq all_diagnostics_def all_decorations_def name_indices_geo ne)
  have coll: "collection (publish ?doc ?st ?ed) (uri ?doc) = Some [make_diagnostic ?dep 10]"
    by (simp add: publish_def)
  have mem: "make_diagnostic ?dep 10 \<in> set [make_diagnostic ?dep 10]" by simp
  from match_range_invariant [OF run coll mem] show ?thesis by simp
qed

section \<open>C10: termination of the scan\<close>

lemma exec_name_advances:
  assumes "A \<noteq> []"
    and "exec \<lparr>body = name_body A, lastIndex = i\<rparr> s = (Some k, r')"
  shows "i \<le> k \<and> k < lastIndex r' \<and> lastIndex r' = k + length A"
proof -
  from assms(2) obtain e where srch: "regexp_search (name_body A) s i = Some (k, e)"
    and r': "r' = \<lparr>body = name_body A, lastIndex = e\<rparr>"
    by (auto simp: exec_def split: option.splits)
  from regexp_search_Some [OF srch] have "i \<le> k" and "matcher (name_body A) s k = Some e" by simp_all
  then have "e = k + length A" by (auto simp: matcher_name_body split: if_splits)
  with \<open>i \<le> k\<close> r' assms(1) show ?thesis by simp
qed

text \<open>
  Claim C10. When every record of the catalog has a non-empty \<open>apiName\<close>, the call
  returns for every text. The precondition is needed: the call runs forever exactly when
  some record has the empty name and the text holds a word character (the empty name
  matches with length zero at a word boundary, and \<open>lastIndex\<close> stays there). For a
  non-empty name every successful \<open>exec\<close> leaves \<open>lastIndex\<close> strictly greater than it
  was.
\<close>

theorem scan_terminates:
  "((\<forall>dep\<in>set deps. apiName dep \<noteq> []) \<longrightarrow>
      (\<exists>ed'. checkForDeprecations doc deps ed = Some (Inr ed')))
   \<and> (checkForDeprecations doc deps ed = None \<longleftrightarrow>
        (\<exists>dep\<in>set deps. apiName dep = [] \<and> (\<exists>c\<in>set (getText doc). word_character c)))
   \<and> (\<forall>A r i k r'. A \<noteq> [] \<and> new_RegExp (pattern_source A) = Some r \<and>
          exec (r\<lparr>lastIndex := i\<rparr>) (getText doc) = (Some k, r') \<longrightarrow> i < lastIndex r')"
proof (intro conjI allI impI)
  assume "\<forall>dep\<in>set deps. apiName dep \<noteq> []"
  then show "\<exists>ed'. checkForDeprecations doc deps ed = Some (Inr ed')"
    by (simp add: checkForDeprecations_eq)
next
  show "checkForDeprecations doc deps ed = None \<longleftrightarrow>
        (\<exists>dep\<in>set deps. apiName dep = [] \<and> (\<exists>c\<in>set (getText doc). word_character c))"
    by (simp add: checkForDeprecations_eq has_word_character_def)
next
  fix A r i k r'
  assume a: "A \<noteq> [] \<and> new_RegExp (pattern_source A) = Some r \<and>
          exec (r\<lparr>lastIndex := i\<rparr>) (getText doc) = (Some k, r')"
  then have "r = \<lparr>body = name_body A, lastIndex = 0\<rparr>" by (simp add: new_RegExp_name)
  with a have "exec \<lparr>body = name_body A, lastIndex = i\<rparr> (getText doc) = (Some k, r')" by simp
  from exec_name_advances [OF _ this] a show "i < lastIndex r'" by simp
qed

theorem scan_terminates_witness:
  "(\<exists>ed'. checkForDeprecations \<lparr>uri = js ''a.js'', getText = js ''x Foo y'', visible = True\<rparr>
             [\<lparr>apiName = js ''Foo'', changeType = js ''Removed'', description = js ''gone''\<rparr>]
             \<lparr>collection = Map.empty, decorations = Map.empty\<rparr> = Some (Inr ed'))
   \<and> checkForDeprecations \<lparr>uri = js ''a.js'', getText = js ''x Foo y'', visible = True\<rparr>
             [\<lparr>apiName = [], changeType = js ''Removed'', description = js ''gone''\<rparr>]
             \<lparr>collection = Map.empty, decorations = Map.empty\<rparr> = None"
proof -
  let ?doc = "\<lparr>uri = js ''a.js'', getText = js ''x Foo y'', visible = True\<rparr>"
  let ?ed = "\<lparr>collection = Map.empty, decorations = Map.empty\<rparr>"
  let ?foo = "\<lparr>apiName = js ''Foo'', changeType = js ''Removed'', description = js ''gone''\<rparr>"
  let ?nil = "\<lparr>apiName = [], changeType = js ''Removed'', description = js ''gone''\<rparr>"
  have 1: "\<forall>dep\<in>set [?foo]. apiName dep \<noteq> []" by (simp add: js_def)
  have 2: "\<exists>dep\<in>set [?nil]. apiName dep = [] \<and> (\<exists>c\<in>set (getText ?doc). word_character c)"
    by (simp add: js_def word_character_def)
  from scan_terminates [of "[?foo]" ?doc ?ed] 1
  have a: "\<exists>ed'. checkForDeprecations ?doc [?foo] ?ed = Some (Inr ed')" by blast
  from scan_terminates [of "[?nil]" ?doc ?ed] 2
  have b: "checkForDeprecations ?doc [?nil] ?ed = None" by blast
  from a b show ?thesis by blast
qed

end
